theory Spec2Isabelle
  imports Main "HOL-Library.Word"
begin

unbundle bit_operations_syntax

section \<open>Command line of \<open>main\<close> (src/src/main.cc, lines 160-223)\<close>

text \<open>
  \<open>rte_exit(EXIT_FAILURE, msg)\<close> ends the process; it is the \<open>Inl\<close> branch of every
  function below.  The message is kept so that the branch taken can be read off.
\<close>

datatype exit = Exit int string

definition EXIT_FAILURE :: int where
  "EXIT_FAILURE = 1"

text \<open>The eight levels of DPDK's \<open>rte_log.h\<close> that \<open>loglevel\<close> can hold.\<close>

datatype rte_loglevel =
    RTE_LOG_EMERG | RTE_LOG_ALERT | RTE_LOG_CRIT | RTE_LOG_ERR
  | RTE_LOG_WARNING | RTE_LOG_NOTICE | RTE_LOG_INFO | RTE_LOG_DEBUG

text \<open>
  The \<open>case 'l'\<close> branch of the option loop (lines 181-199): a chain of \<open>strcmp\<close> tests
  on \<open>optarg\<close>, in the order of the source, ending in \<open>rte_exit\<close>.
\<close>

definition parse_loglevel :: "string \<Rightarrow> exit + rte_loglevel" where
  "parse_loglevel optarg =
     (if optarg = ''debug'' then Inr RTE_LOG_DEBUG
      else if optarg = ''info'' then Inr RTE_LOG_INFO
      else if optarg = ''notice'' then Inr RTE_LOG_NOTICE
      else if optarg = ''warning'' then Inr RTE_LOG_WARNING
      else if optarg = ''error'' then Inr RTE_LOG_ERR
      else if optarg = ''critical'' then Inr RTE_LOG_CRIT
      else if optarg = ''emergency'' then Inr RTE_LOG_EMERG
      else Inl (Exit EXIT_FAILURE (''Invalid value for loglevel: '' @ optarg)))"

text \<open>
  What \<open>getopt_long(argc, argv, "l:", long_opts, &optidx)\<close> hands to the \<open>switch\<close>:
  \<open>0\<close> with the index of a long option that has no short form, \<open>'l'\<close> with its
  argument, \<open>'?'\<close> for an option it does not know, or some other value.
\<close>

datatype getopt_ret = Opt0 nat | OptL string | OptQuestion | OptOther int

record nba_opts =
  preserve_latency :: bool
  loglevel :: rte_loglevel

definition long_opts :: "string list" where
  "long_opts = [''preserve-latency'', ''loglevel'']"

definition handle_opt :: "nba_opts \<Rightarrow> getopt_ret \<Rightarrow> exit + nba_opts" where
  "handle_opt st c =
     (case c of
        Opt0 optidx \<Rightarrow>
          (if long_opts ! optidx = ''preserve-latency''
           then Inr (st\<lparr>preserve_latency := True\<rparr>) else Inr st)
      | OptL optarg \<Rightarrow>
          (case parse_loglevel optarg of
             Inl e \<Rightarrow> Inl e
           | Inr l \<Rightarrow> Inr (st\<lparr>loglevel := l\<rparr>))
      | OptQuestion \<Rightarrow> Inr st
      | OptOther _ \<Rightarrow> Inl (Exit EXIT_FAILURE ''Invalid NBA arguments.''))"

fun parse_opts :: "nba_opts \<Rightarrow> getopt_ret list \<Rightarrow> exit + nba_opts" where
  "parse_opts st [] = Inr st"
| "parse_opts st (c # cs) =
     (case handle_opt st c of Inl e \<Rightarrow> Inl e | Inr st' \<Rightarrow> parse_opts st' cs)"

text \<open>
  The two path buffers are \<open>new char[PATH_MAX]\<close>, not initialised: \<open>None\<close> until
  \<open>strncpy\<close> has written them.
\<close>

definition PATH_MAX :: nat where
  "PATH_MAX = 4096"

record nba_paths =
  system_config :: "string option"
  pipeline_config :: "string option"

definition strncpy :: "string \<Rightarrow> nat \<Rightarrow> string" where
  "strncpy src n = take n src"

text \<open>
  Lines 212-223: the loop over the positional arguments \<open>argv[optind..argc)\<close>.
  \<open>argc\<close> is the length of \<open>argv\<close>.
\<close>

function positional_loop :: "string list \<Rightarrow> int \<Rightarrow> int \<Rightarrow> nba_paths \<Rightarrow> exit + nba_paths" where
  "positional_loop argv optind optidx p =
     (if 0 \<le> optidx \<and> optidx < int (length argv) then
        (if optidx - optind = 0 then
           positional_loop argv optind (optidx + 1)
             (p\<lparr>system_config := Some (strncpy (argv ! nat optidx) PATH_MAX)\<rparr>)
         else if optidx - optind = 1 then
           positional_loop argv optind (optidx + 1)
             (p\<lparr>pipeline_config := Some (strncpy (argv ! nat optidx) PATH_MAX)\<rparr>)
         else Inl (Exit EXIT_FAILURE ''Too many NBA arguments.''))
      else Inr p)"
  by pat_completeness auto
termination
  by (relation "measure (\<lambda>(argv, optind, optidx, p). nat (int (length argv) - optidx))") auto

text \<open>Lines 207-223: the test on the number of arguments, then the loop.\<close>

definition check_positional :: "string list \<Rightarrow> int \<Rightarrow> exit + nba_paths" where
  "check_positional argv optind =
     (if optind + 2 < int (length argv) - 1
      then Inl (Exit EXIT_FAILURE ''Not enough NBA arguments.'')
      else positional_loop argv optind optind
             \<lparr>system_config = None, pipeline_config = None\<rparr>)"

section \<open>Signal handler (src/src/main.cc, lines 961-986)\<close>

text \<open>
  The part of the process state the handler can touch: the asynchronous notifications
  sent with \<open>ev_async_send\<close>, the loops broken with \<open>ev_break\<close>, whether
  \<open>rte_eal_mp_wait_lcore\<close> was called, the signals on \<open>_exit_cond\<close> and the flag
  \<open>_terminated\<close>.  The globals it reads are fields too; \<open>coproc_ctx_nodes\<close> lists
  the nodes \<open>i\<close> whose \<open>coprocessor_threads[i].coproc_ctx\<close> is not null.
\<close>

datatype worker = CoprocWorker nat | IOWorker nat

record proc_state =
  main_thread_id :: nat
  num_nodes :: nat
  num_io_threads :: nat
  coproc_ctx_nodes :: "nat list"
  async_sent :: "worker list"
  loops_broken :: "worker list"
  lcores_waited :: bool
  exit_cond_signals :: nat
  terminated :: bool

definition notify_coprocs :: "proc_state \<Rightarrow> proc_state" where
  "notify_coprocs st =
     st\<lparr>async_sent := async_sent st @
          map CoprocWorker (filter (\<lambda>i. i \<in> set (coproc_ctx_nodes st)) [0..<num_nodes st])\<rparr>"

fun notify_io :: "nat list \<Rightarrow> proc_state \<Rightarrow> proc_state" where
  "notify_io [] st = st"
| "notify_io (i # is) st =
     notify_io is (st\<lparr>async_sent := async_sent st @ [IOWorker i],
                       loops_broken := loops_broken st @ [IOWorker i]\<rparr>)"

definition handle_signal :: "nat \<Rightarrow> proc_state \<Rightarrow> proc_state" where
  "handle_signal self st =
     (if main_thread_id st = self then
        (let st1 = notify_coprocs st;
             st2 = notify_io [0..<num_io_threads st1] st1;
             st3 = st2\<lparr>lcores_waited := True\<rparr>
         in st3\<lparr>terminated := True, exit_cond_signals := exit_cond_signals st3 + 1\<rparr>)
      else st)"

section \<open>Software rings (src/src/main.cc, lines 437-476)\<close>

text \<open>
  \<open>system_params\<close> is a map from names to \<open>long\<close>; \<open>operator[]\<close> gives 0 for a missing
  key, and the assignment to an \<open>unsigned\<close> reduces the value modulo \<open>2 ^ 32\<close>.
\<close>

type_synonym system_params = "string \<rightharpoonup> int"

definition sysparam :: "system_params \<Rightarrow> string \<Rightarrow> 32 word" where
  "sysparam ps k = word_of_int (case ps k of None \<Rightarrow> 0 | Some v \<Rightarrow> v)"

text \<open>
  The three queue templates that the \<open>switch\<close> of line 451 knows; its \<open>default\<close> branch
  (\<open>assert(0)\<close>) is for values outside the enumeration.  The field \<open>template\<close> is
  \<open>template_\<close> of the source; \<open>mp_enq\<close> and \<open>mc_deq\<close> are the two fields that only the
  comment of line 467 reads.
\<close>

datatype queue_template = SWRXQ | TASKINQ | TASKOUTQ

record queue_conf =
  conf_node_id :: nat
  template :: queue_template
  mp_enq :: bool
  mc_deq :: bool

text \<open>
  What \<open>main\<close> asks of DPDK for one ring: the arguments of \<open>rte_ring_create\<close> (count,
  socket, flags) and of \<open>rte_ring_set_water_mark\<close>.
\<close>

record sw_ring =
  ring_count :: "32 word"
  ring_socket :: nat
  ring_flags :: "32 word"
  ring_water_mark :: "32 word"

text \<open>
  The flag bits of DPDK's \<open>rte_ring.h\<close>: a ring is single-producer when
  \<open>RING_F_SP_ENQ\<close> is set in its flags and single-consumer when \<open>RING_F_SC_DEQ\<close> is.
\<close>

definition RING_F_SP_ENQ :: "32 word" where
  "RING_F_SP_ENQ = 1"

definition RING_F_SC_DEQ :: "32 word" where
  "RING_F_SC_DEQ = 2"

definition sp_enqueue :: "sw_ring \<Rightarrow> bool" where
  "sp_enqueue r \<longleftrightarrow> ring_flags r AND RING_F_SP_ENQ \<noteq> 0"

definition sc_dequeue :: "sw_ring \<Rightarrow> bool" where
  "sc_dequeue r \<longleftrightarrow> ring_flags r AND RING_F_SC_DEQ \<noteq> 0"

definition queue_length_of :: "system_params \<Rightarrow> queue_template \<Rightarrow> 32 word" where
  "queue_length_of ps t =
     (case t of
        SWRXQ \<Rightarrow> 32
      | TASKINQ \<Rightarrow> sysparam ps ''COPROC_INPUTQ_LENGTH''
      | TASKOUTQ \<Rightarrow> sysparam ps ''COPROC_COMPLETIONQ_LENGTH'')"

datatype abort = AssertFailed string | BadDeref string

text \<open>
  Whether DPDK creates the ring, accepts the watermark and has memory for the watcher is
  decided outside the program; the three answers are the fields of \<open>dpdk\<close>.
\<close>

record dpdk =
  ring_create_ok :: "sw_ring \<Rightarrow> bool"
  set_water_mark_ok :: "sw_ring \<Rightarrow> bool"
  malloc_socket_ok :: "nat \<Rightarrow> bool"

text \<open>One turn of the loop of line 448; each \<open>assert\<close> is a branch.\<close>

definition create_queue :: "dpdk \<Rightarrow> system_params \<Rightarrow> queue_conf \<Rightarrow> abort + sw_ring" where
  "create_queue lib ps conf =
     (let queue_length = queue_length_of ps (template conf);
          r = \<lparr>ring_count = queue_length, ring_socket = conf_node_id conf,
               ring_flags = 0, ring_water_mark = queue_length - 8\<rparr>
      in if \<not> ring_create_ok lib r then Inl (AssertFailed ''queues[qidx] != NULL'')
         else if \<not> set_water_mark_ok lib r
           then Inl (AssertFailed ''0 == rte_ring_set_water_mark(queues[qidx], queue_length - 8)'')
         else if \<not> malloc_socket_ok lib (conf_node_id conf)
           then Inl (AssertFailed ''qwatchers[qidx] != NULL'')
         else Inr r)"

fun prepare_queues :: "dpdk \<Rightarrow> system_params \<Rightarrow> queue_conf list \<Rightarrow> abort + sw_ring list" where
  "prepare_queues lib ps [] = Inr []"
| "prepare_queues lib ps (conf # confs) =
     (case create_queue lib ps conf of
        Inl e \<Rightarrow> Inl e
      | Inr r \<Rightarrow>
          (case prepare_queues lib ps confs of
             Inl e \<Rightarrow> Inl e
           | Inr rs \<Rightarrow> Inr (r # rs)))"

text \<open>The case in which DPDK grants every request.\<close>

definition dpdk_accepts :: dpdk where
  "dpdk_accepts = \<lparr>ring_create_ok = (\<lambda>r. True), set_water_mark_ok = (\<lambda>r. True),
                    malloc_socket_ok = (\<lambda>n. True)\<rparr>"

section \<open>Bootstrap sequence (src/src/main.cc, lines 522-947)\<close>

text \<open>
  The main thread runs the bootstrap alone; what it does is a list of events, in the
  order of the source: the threads it spawns, the barriers it opens and waits on, and the
  calls into the element graphs.  How the fields of the thread contexts are filled in
  (with the allocations and their \<open>assert\<close>s) is left out, as are \<open>bind_cpu\<close> and the
  log lines.  A computation thread context is identified by its \<open>loc\<close>.
\<close>

record comp_thread_context =
  core_id :: nat
  node_id :: nat

datatype boot_event =
    SpawnCoproc nat
  | ThreadInitDoneWait nat
  | BuildElementGraph comp_thread_context
  | InitGraphGlobal comp_thread_context
  | InitGraphPerNode comp_thread_context
  | OffloadInitProceed nat comp_thread_context
  | OffloadInitDoneWait nat
  | InitGraphPerThread comp_thread_context
  | LoopStartProceed nat
  | PrepareIOContext nat
  | NotifyReady
  | RemoteLaunch

text \<open>
  The inputs of the sequence: the node of each coprocessor thread
  (\<open>coproc_thread_confs\<close>), the computation thread contexts in the order of
  \<open>comp_thread_confs\<close>, the order in which the \<open>unordered_set existing_nodes\<close> is
  iterated, and the number of I/O threads.
\<close>

record boot_conf =
  coproc_nodes :: "nat list"
  comp_thread_ctxs :: "comp_thread_context list"
  existing_nodes :: "nat list"
  io_thread_count :: nat

text \<open>
  Lines 522-603: each coprocessor thread is spawned and the main thread waits on its
  \<open>thread_init_done_barrier\<close> before it turns to the next.
\<close>

fun spawn_coprocs :: "nat list \<Rightarrow> boot_event list" where
  "spawn_coprocs [] = []"
| "spawn_coprocs (n # ns) = SpawnCoproc n # ThreadInitDoneWait n # spawn_coprocs ns"

text \<open>
  Lines 745-753: for each existing node, the first context of the node initialises the
  graph per node.  \<open>ni\<close> is the array \<open>node_initialized\<close>, as the list of nodes set.
\<close>

fun per_node_inner ::
  "nat \<Rightarrow> comp_thread_context list \<Rightarrow> nat list \<Rightarrow> boot_event list \<times> nat list" where
  "per_node_inner n [] ni = ([], ni)"
| "per_node_inner n (ctx # ctxs) ni =
     (if node_id ctx = n \<and> n \<notin> set ni then
        (let (es, ni') = per_node_inner n ctxs (n # ni)
         in (InitGraphPerNode ctx # es, ni'))
      else per_node_inner n ctxs ni)"

fun per_node_outer ::
  "nat list \<Rightarrow> comp_thread_context list \<Rightarrow> nat list \<Rightarrow> boot_event list" where
  "per_node_outer [] ctxs ni = []"
| "per_node_outer (n # ns) ctxs ni =
     (let (es, ni') = per_node_inner n ctxs ni in es @ per_node_outer ns ctxs ni')"

text \<open>
  Lines 756-775: the same walk for the offloadable elements.  The main thread hands the
  context to the coprocessor thread of the node, lets it proceed and waits until it is
  done.  \<open>coprocessor_threads[node_id].coproc_ctx\<close> is null for a node that has no
  coprocessor thread, and dereferencing it is a fault.
\<close>

fun offload_inner ::
  "nat list \<Rightarrow> nat \<Rightarrow> comp_thread_context list \<Rightarrow> nat list \<Rightarrow> abort + boot_event list \<times> nat list" where
  "offload_inner cps n [] ni = Inr ([], ni)"
| "offload_inner cps n (ctx # ctxs) ni =
     (if node_id ctx = n \<and> n \<notin> set ni then
        (if n \<notin> set cps then Inl (BadDeref ''coprocessor_threads[node_id].coproc_ctx'')
         else
           (case offload_inner cps n ctxs (n # ni) of
              Inl e \<Rightarrow> Inl e
            | Inr (es, ni') \<Rightarrow> Inr (OffloadInitProceed n ctx # OffloadInitDoneWait n # es, ni')))
      else offload_inner cps n ctxs ni)"

fun offload_outer ::
  "nat list \<Rightarrow> nat list \<Rightarrow> comp_thread_context list \<Rightarrow> nat list \<Rightarrow> abort + boot_event list" where
  "offload_outer cps [] ctxs ni = Inr []"
| "offload_outer cps (n # ns) ctxs ni =
     (case offload_inner cps n ctxs ni of
        Inl e \<Rightarrow> Inl e
      | Inr (es, ni') \<Rightarrow>
          (case offload_outer cps ns ctxs ni' of
             Inl e \<Rightarrow> Inl e
           | Inr es' \<Rightarrow> Inr (es @ es')))"

text \<open>Lines 785-788: the coprocessor threads are let into their loops.\<close>

fun loop_start :: "nat list \<Rightarrow> nat list \<Rightarrow> abort + boot_event list" where
  "loop_start cps [] = Inr []"
| "loop_start cps (n # ns) =
     (if n \<notin> set cps then Inl (BadDeref ''coprocessor_threads[node_id].coproc_ctx'')
      else (case loop_start cps ns of
              Inl e \<Rightarrow> Inl e
            | Inr es \<Rightarrow> Inr (LoopStartProceed n # es)))"

text \<open>
  The whole sequence.  Line 727 dereferences \<open>comp_thread_ctxs.begin()\<close>, which is a
  fault when there is no computation thread.
\<close>

definition bootstrap :: "boot_conf \<Rightarrow> abort + boot_event list" where
  "bootstrap c =
     (let cps = coproc_nodes c; ctxs = comp_thread_ctxs c; nodes = existing_nodes c;
          spawned = spawn_coprocs cps @ map BuildElementGraph ctxs
      in case ctxs of
           [] \<Rightarrow> Inl (BadDeref ''*(comp_thread_ctxs.begin())'')
         | ctx0 # _ \<Rightarrow>
             (case (if 0 < length cps then offload_outer cps nodes ctxs [] else Inr []) of
                Inl e \<Rightarrow> Inl e
              | Inr offl \<Rightarrow>
                  (case (if 0 < length cps then loop_start cps nodes else Inr []) of
                     Inl e \<Rightarrow> Inl e
                   | Inr starts \<Rightarrow>
                       Inr (spawned @ [InitGraphGlobal ctx0]
                            @ per_node_outer nodes ctxs []
                            @ offl
                            @ map InitGraphPerThread ctxs
                            @ starts
                            @ map PrepareIOContext [0..<io_thread_count c]
                            @ [NotifyReady, RemoteLaunch]))))"

text \<open>
  The phase of an event, in the order of the source; \<open>spec_phase\<close> is the order that
  the specification gives the last two initialisation phases (per thread, then offload).
\<close>

fun phase :: "boot_event \<Rightarrow> nat" where
  "phase (SpawnCoproc _) = 0"
| "phase (ThreadInitDoneWait _) = 0"
| "phase (BuildElementGraph _) = 1"
| "phase (InitGraphGlobal _) = 2"
| "phase (InitGraphPerNode _) = 3"
| "phase (OffloadInitProceed _ _) = 4"
| "phase (OffloadInitDoneWait _) = 4"
| "phase (InitGraphPerThread _) = 5"
| "phase (LoopStartProceed _) = 6"
| "phase (PrepareIOContext _) = 7"
| "phase NotifyReady = 8"
| "phase RemoteLaunch = 9"

fun spec_phase :: "boot_event \<Rightarrow> nat" where
  "spec_phase (InitGraphPerThread _) = 4"
| "spec_phase (OffloadInitProceed _ _) = 5"
| "spec_phase (OffloadInitDoneWait _) = 5"
| "spec_phase e = phase e"

section \<open>IPsecAuthHMACSHA1::process (src/unnamed/part_002, lines 149-187)\<close>

text \<open>
  Memory is bytes.  An object (the packet buffer, the stack array \<open>hmac_buf\<close>, a key) is
  the list of its bytes, and an access that leaves the object is the fault
  \<open>OutOfBounds\<close>, which is how the undefined behaviour of C shows in the functions below.
\<close>

type_synonym byte = "8 word"

datatype fault = OutOfBounds

definition bindf :: "fault + 'a \<Rightarrow> ('a \<Rightarrow> fault + 'b) \<Rightarrow> fault + 'b" where
  "bindf m f = (case m of Inl e \<Rightarrow> Inl e | Inr x \<Rightarrow> f x)"

definition in_bounds :: "int \<Rightarrow> nat \<Rightarrow> 'a list \<Rightarrow> bool" where
  "in_bounds off n obj \<longleftrightarrow> 0 \<le> off \<and> off + int n \<le> int (length obj)"

definition mem_read :: "byte list \<Rightarrow> int \<Rightarrow> nat \<Rightarrow> fault + byte list" where
  "mem_read obj off n =
     (if in_bounds off n obj then Inr (take n (drop (nat off) obj)) else Inl OutOfBounds)"

definition mem_write :: "byte list \<Rightarrow> int \<Rightarrow> byte list \<Rightarrow> fault + byte list" where
  "mem_write obj off bs =
     (if in_bounds off (length bs) obj
      then Inr (take (nat off) obj @ bs @ drop (nat off + length bs) obj)
      else Inl OutOfBounds)"

text \<open>\<open>rte_memcpy(dst + doff, src + soff, n)\<close> between two distinct objects.\<close>

definition rte_memcpy :: "byte list \<Rightarrow> int \<Rightarrow> byte list \<Rightarrow> int \<Rightarrow> nat \<Rightarrow> fault + byte list" where
  "rte_memcpy dst doff src soff n = bindf (mem_read src soff n) (mem_write dst doff)"

text \<open>The conversion of an \<open>int\<close> to \<open>size_t\<close> (64 bits).\<close>

definition size_t :: "int \<Rightarrow> nat" where
  "size_t x = nat (x mod 2 ^ 64)"

text \<open>
  \<open>*((uint64_t*) p + i)\<close> on the little-endian machines the program runs on: the word
  made of the eight bytes from offset \<open>8 * i\<close>, the first byte the lowest.
\<close>

definition le64 :: "byte list \<Rightarrow> 64 word" where
  "le64 bs = word_of_int (horner_sum uint (2 ^ 8) bs)"

definition bytes64 :: "64 word \<Rightarrow> byte list" where
  "bytes64 w = map (\<lambda>i. ucast (drop_bit (8 * i) w)) [0..<8]"

definition load64 :: "byte list \<Rightarrow> nat \<Rightarrow> fault + 64 word" where
  "load64 obj i = bindf (mem_read obj (int (8 * i)) 8) (\<lambda>bs. Inr (le64 bs))"

definition store64 :: "byte list \<Rightarrow> nat \<Rightarrow> 64 word \<Rightarrow> fault + byte list" where
  "store64 obj i w = mem_write obj (int (8 * i)) (bytes64 w)"

text \<open>
  The two loops of lines 171-172 and 176-178:
  \<open>*((uint64_t*)hmac_buf + i) = pad ^ *((uint64_t*)hmac_key + i)\<close> for the given \<open>i\<close>.
\<close>

fun xor_pad_loop :: "64 word \<Rightarrow> byte list \<Rightarrow> nat list \<Rightarrow> byte list \<Rightarrow> fault + byte list" where
  "xor_pad_loop pad hmac_key [] hmac_buf = Inr hmac_buf"
| "xor_pad_loop pad hmac_key (i # is) hmac_buf =
     bindf (load64 hmac_key i) (\<lambda>k.
     bindf (store64 hmac_buf i (pad XOR k)) (\<lambda>hmac_buf'.
     xor_pad_loop pad hmac_key is hmac_buf'))"

text \<open>
  Modelled from the spec: the annotation table of a packet (\<open>annotation.hh\<close> is not among
  the sources), a fixed set of slots, each a 64-bit value with a validity bit.
\<close>

datatype PacketAnnotationKind = NBA_ANNO_IPSEC_FLOW_ID | NBA_ANNO_OTHER nat

record annotation_set =
  isset :: "PacketAnnotationKind \<Rightarrow> bool"
  anno_values :: "PacketAnnotationKind \<Rightarrow> 64 word"

definition anno_isset :: "annotation_set \<Rightarrow> PacketAnnotationKind \<Rightarrow> bool" where
  "anno_isset a k = isset a k"

definition anno_get :: "annotation_set \<Rightarrow> PacketAnnotationKind \<Rightarrow> 64 word" where
  "anno_get a k = anno_values a k"

text \<open>
  Modelled from the spec: a packet (\<open>packet.hh\<close> is not among the sources), with the
  buffer that \<open>pkt->data()\<close> points to, up to its end, the annotation table and the
  kill flag that \<open>pkt->kill()\<close> sets.
\<close>

record Packet =
  data :: "byte list"
  anno :: annotation_set
  killed :: bool

text \<open>
  Modelled from the spec: one entry of the per-tunnel key array (\<open>util_sa_entry.hh\<close> is
  not among the sources), with the two fields that lines 92-94 and 168 use, and
  \<open>HMAC_KEY_SIZE\<close>, the 64 bytes of the key (the length of the literal of line 94).
\<close>

record hmac_sa_entry =
  hmac_key :: "byte list"
  entry_idx :: int

definition HMAC_KEY_SIZE :: nat where
  "HMAC_KEY_SIZE = 64"

definition SHA_DIGEST_LENGTH :: nat where
  "SHA_DIGEST_LENGTH = 20"

definition sizeof_ether_hdr :: nat where
  "sizeof_ether_hdr = 14"

definition sizeof_iphdr :: nat where
  "sizeof_iphdr = 20"

text \<open>
  The two fields of the IP header that line 160 reads: \<open>tot_len\<close> (bytes 2 and 3, network
  order, through \<open>ntohs\<close>) and \<open>ihl\<close> (the low four bits of byte 0).
\<close>

definition ntohs :: "byte list \<Rightarrow> int" where
  "ntohs bs = uint (bs ! 0) * 256 + uint (bs ! 1)"

definition iph_tot_len :: "byte list \<Rightarrow> fault + int" where
  "iph_tot_len d = bindf (mem_read d (int sizeof_ether_hdr + 2) 2) (\<lambda>bs. Inr (ntohs bs))"

definition iph_ihl :: "byte list \<Rightarrow> fault + int" where
  "iph_ihl d = bindf (mem_read d (int sizeof_ether_hdr) 1) (\<lambda>bs. Inr (uint (bs ! 0 AND 15)))"

text \<open>
  What \<open>process\<close> leaves behind: its return value, the packet, and the output port the
  packet was pushed to by \<open>output(0).push(pkt)\<close>, if any.
\<close>

record process_result =
  retval :: int
  pkt_after :: Packet
  pushed_port :: "nat option"

text \<open>
  \<open>process\<close>, statement by statement.  \<open>SHA1\<close> is OpenSSL's function, from a message to
  its digest; \<open>stack\<close> is what the uninitialised array \<open>hmac_buf\<close> holds on entry;
  \<open>flows\<close> is the key array of the node.  \<open>&flows[k]\<close> is checked where the pointer is
  formed.
\<close>

definition process ::
  "(byte list \<Rightarrow> byte list) \<Rightarrow> (nat \<Rightarrow> byte) \<Rightarrow> hmac_sa_entry list \<Rightarrow> int \<Rightarrow> Packet
     \<Rightarrow> fault + process_result" where
  "process SHA1 stack flows input_port pkt =
     bindf (iph_tot_len (data pkt)) (\<lambda>tot_len.
     bindf (iph_ihl (data pkt)) (\<lambda>ihl.
     let payload_out = int (sizeof_ether_hdr + sizeof_iphdr);
         payload_len = tot_len - ihl * 4 - int SHA_DIGEST_LENGTH;
         hmac_buf = map stack [0..<2048]
     in if anno_isset (anno pkt) NBA_ANNO_IPSEC_FLOW_ID then
          (let k = unat (anno_get (anno pkt) NBA_ANNO_IPSEC_FLOW_ID) in
           if \<not> k < length flows then Inl OutOfBounds
           else
             (let hmac_key = hmac_key (flows ! k) in
              bindf (rte_memcpy hmac_buf 64 (data pkt) payload_out (size_t payload_len))
                (\<lambda>hmac_buf.
              bindf (xor_pad_loop 0x3636363636363636 hmac_key [0..<8] hmac_buf) (\<lambda>hmac_buf.
              bindf (mem_read hmac_buf 0 (size_t (64 + payload_len))) (\<lambda>inner.
              let isum = SHA1 inner in
              bindf (rte_memcpy hmac_buf 64 isum 0 SHA_DIGEST_LENGTH) (\<lambda>hmac_buf.
              bindf (xor_pad_loop 0x5c5c5c5c5c5c5c5c hmac_key [0..<8] hmac_buf) (\<lambda>hmac_buf.
              bindf (mem_read hmac_buf 0 (size_t (64 + int SHA_DIGEST_LENGTH))) (\<lambda>outer.
              bindf (mem_write (data pkt) (payload_out + payload_len) (SHA1 outer)) (\<lambda>d.
              Inr \<lparr>retval = 0, pkt_after = pkt\<lparr>data := d\<rparr>, pushed_port = Some 0\<rparr>)))))))))
        else Inr \<lparr>retval = 0, pkt_after = pkt\<lparr>killed := True\<rparr>, pushed_port = None\<rparr>))"

text \<open>
  The reference, from RFC 2104, for a hash function \<open>H\<close> with blocks of \<open>B\<close> bytes: a
  key longer than a block is hashed first, a shorter one is filled with zeros, and the
  result is \<open>H (K XOR opad, H (K XOR ipad, text))\<close>.
\<close>

definition hmac_reference ::
  "(byte list \<Rightarrow> byte list) \<Rightarrow> nat \<Rightarrow> byte list \<Rightarrow> byte list \<Rightarrow> byte list" where
  "hmac_reference H B K text =
     (let K' = (if B < length K then H K else K);
          K0 = K' @ replicate (B - length K') 0
      in H (map (\<lambda>b. b XOR 0x5c) K0 @ H (map (\<lambda>b. b XOR 0x36) K0 @ text)))"

definition hmac_sha1_reference :: "(byte list \<Rightarrow> byte list) \<Rightarrow> byte list \<Rightarrow> byte list \<Rightarrow> byte list" where
  "hmac_sha1_reference SHA1 K text = hmac_reference SHA1 64 K text"

text \<open>The length that line 160 computes, for the statements of the theorems.\<close>

definition payload_len_of :: "byte list \<Rightarrow> int" where
  "payload_len_of d =
     ntohs (take 2 (drop (sizeof_ether_hdr + 2) d)) - uint (d ! sizeof_ether_hdr AND 15) * 4
       - int SHA_DIGEST_LENGTH"

section \<open>Initialisation of IPsecAuthHMACSHA1 (src/unnamed/part_002, lines 25-138)\<close>

record ipaddr_pair =
  src_addr :: "32 word"
  dest_addr :: "32 word"

text \<open>
  The element's own fields that the initialisation reads: the constructor sets
  \<open>num_tunnels\<close> and \<open>dummy_index\<close> to 0, \<open>configure\<close> sets \<open>num_tunnels\<close> to 1024.
\<close>

record IPsecAuthHMACSHA1 =
  num_tunnels :: nat
  dummy_index :: nat

definition IPsecAuthHMACSHA1_new :: IPsecAuthHMACSHA1 where
  "IPsecAuthHMACSHA1_new = \<lparr>num_tunnels = 0, dummy_index = 0\<rparr>"

definition configure :: "IPsecAuthHMACSHA1 \<Rightarrow> IPsecAuthHMACSHA1" where
  "configure e = e\<lparr>num_tunnels := 1024\<rparr>"

text \<open>
  Modelled from the spec: \<open>NodeLocalStorage\<close> (\<open>nodelocalstorage.hh\<close> is not among the
  sources), a map from names to regions, one per node; \<open>alloc\<close> adds a region,
  \<open>get_alloc\<close> finds it.  A region holds what the element has put there.
\<close>

datatype nls_region = Uninitialised | SaTable "(ipaddr_pair \<times> int) list" | KeyArray "hmac_sa_entry list"

type_synonym NodeLocalStorage = "string \<rightharpoonup> nls_region"

definition alloc :: "NodeLocalStorage \<Rightarrow> string \<Rightarrow> NodeLocalStorage" where
  "alloc s name = s(name \<mapsto> Uninitialised)"

definition get_alloc :: "NodeLocalStorage \<Rightarrow> string \<Rightarrow> nls_region option" where
  "get_alloc s name = s name"

text \<open>
  The state that the initialisation functions share: the two globals of lines 28 and 31
  (\<open>None\<close> is the null pointer), the number of calls of \<open>free\<close>, the storage of each
  node, and the field \<open>flows\<close> of the element instance of each computation thread (by
  core).
\<close>

record hmac_world =
  hmac_sa_entry_array :: "hmac_sa_entry list option"
  hmac_sa_table :: "(ipaddr_pair \<times> int) list"
  free_calls :: nat
  node_local_storage :: "nat \<Rightarrow> NodeLocalStorage"
  flows_of :: "nat \<Rightarrow> nls_region option"

definition world0 :: hmac_world where
  "world0 = \<lparr>hmac_sa_entry_array = None, hmac_sa_table = [], free_calls = 0,
             node_local_storage = (\<lambda>n. Map.empty), flows_of = (\<lambda>c. None)\<rparr>"

text \<open>The 64 bytes of the key that line 94 copies: \<open>abcd\<close> sixteen times.\<close>

definition abcd_key :: "byte list" where
  "abcd_key = concat (replicate 16 [0x61, 0x62, 0x63, 0x64])"

definition tunnel_pair :: "nat \<Rightarrow> ipaddr_pair" where
  "tunnel_pair i = \<lparr>src_addr = 0x0a000001, dest_addr = 0x0a000000 OR word_of_nat (i + 1)\<rparr>"

text \<open>
  Lines 86-95.  \<open>hmac_sa_table.insert\<close> refuses a key that is there already, and the
  \<open>assert\<close> on its result is a branch.  Entry \<open>i\<close> of the array is written in turn \<open>i\<close>;
  the list holds the entries written so far.
\<close>

fun initialize_global_loop :: "nat list \<Rightarrow> hmac_world \<Rightarrow> abort + hmac_world" where
  "initialize_global_loop [] w = Inr w"
| "initialize_global_loop (i # rest) w =
     (if tunnel_pair i \<in> fst ` set (hmac_sa_table w)
      then Inl (AssertFailed ''result.second == true'')
      else initialize_global_loop rest
             (w\<lparr>hmac_sa_table := hmac_sa_table w @ [(tunnel_pair i, int i)],
                hmac_sa_entry_array :=
                  map_option (\<lambda>a. a @ [\<lparr>hmac_key = take HMAC_KEY_SIZE abcd_key, entry_idx = int i\<rparr>])
                    (hmac_sa_entry_array w)\<rparr>))"

definition initialize_global :: "IPsecAuthHMACSHA1 \<Rightarrow> hmac_world \<Rightarrow> abort + hmac_world" where
  "initialize_global e w =
     (if num_tunnels e = 0 then Inl (AssertFailed ''num_tunnels != 0'')
      else initialize_global_loop [0..<num_tunnels e] (w\<lparr>hmac_sa_entry_array := Some []\<rparr>))"

text \<open>
  Lines 100-130, for the storage of node \<open>n\<close>.  The copy of line 124 takes
  \<open>num_tunnels\<close> entries of the array, which has as many since \<open>initialize_global\<close>.
\<close>

definition initialize_per_node :: "IPsecAuthHMACSHA1 \<Rightarrow> nat \<Rightarrow> hmac_world \<Rightarrow> abort + hmac_world" where
  "initialize_per_node e n w =
     (let s1 = (alloc (node_local_storage w n) ''h_hmac_sa_table'')
                 (''h_hmac_sa_table'' \<mapsto> SaTable (hmac_sa_table w));
          s2 = alloc s1 ''h_hmac_flows''
      in case hmac_sa_entry_array w of
           None \<Rightarrow> Inl (AssertFailed ''hmac_sa_entry_array != NULL'')
         | Some a \<Rightarrow>
             (let s3 = s2(''h_hmac_flows'' \<mapsto> KeyArray (take (num_tunnels e) a));
                  s4 = alloc s3 ''d_hmac_flows_ptr''
              in Inr (w\<lparr>node_local_storage := (node_local_storage w)(n := s4)\<rparr>)))"

text \<open>Lines 56-75, for the element instance of the thread \<open>ctx\<close>; it returns 0.\<close>

definition initialize :: "comp_thread_context \<Rightarrow> hmac_world \<Rightarrow> hmac_world" where
  "initialize ctx w =
     (let w1 = w\<lparr>flows_of := (flows_of w)
                  (core_id ctx := get_alloc (node_local_storage w (node_id ctx)) ''h_hmac_flows'')\<rparr>
      in if hmac_sa_entry_array w1 \<noteq> None
         then w1\<lparr>hmac_sa_entry_array := None, free_calls := free_calls w1 + 1\<rparr>
         else w1)"

text \<open>
  Modelled from the spec: \<open>initialize_graph_global\<close>, \<open>initialize_graph_per_node\<close> and
  \<open>initialize_graph_per_thread\<close> of the element graph (not among the sources) call
  \<open>initialize_global\<close>, \<open>initialize_per_node\<close> and \<open>initialize\<close> of the elements of
  the graph of the context; here the graph holds one \<open>IPsecAuthHMACSHA1\<close> element.
  The other events of the bootstrap leave the state of the element alone.
\<close>

fun element_init :: "IPsecAuthHMACSHA1 \<Rightarrow> boot_event \<Rightarrow> hmac_world \<Rightarrow> abort + hmac_world" where
  "element_init e (InitGraphGlobal ctx) w = initialize_global e w"
| "element_init e (InitGraphPerNode ctx) w = initialize_per_node e (node_id ctx) w"
| "element_init e (InitGraphPerThread ctx) w = Inr (initialize ctx w)"
| "element_init e _ w = Inr w"

fun run_inits :: "IPsecAuthHMACSHA1 \<Rightarrow> boot_event list \<Rightarrow> hmac_world \<Rightarrow> abort + hmac_world" where
  "run_inits e [] w = Inr w"
| "run_inits e (ev # evs) w =
     (case element_init e ev w of Inl a \<Rightarrow> Inl a | Inr w' \<Rightarrow> run_inits e evs w')"

text \<open>
  No per-node initialisation comes after a per-thread initialisation: every per-node
  initialisation runs before the first per-thread one.
\<close>

fun is_per_node_init :: "boot_event \<Rightarrow> bool" where
  "is_per_node_init (InitGraphPerNode _) = True"
| "is_per_node_init _ = False"

fun is_per_thread_init :: "boot_event \<Rightarrow> bool" where
  "is_per_thread_init (InitGraphPerThread _) = True"
| "is_per_thread_init _ = False"

fun is_global_init :: "boot_event \<Rightarrow> bool" where
  "is_global_init (InitGraphGlobal _) = True"
| "is_global_init _ = False"

fun per_node_inits_first :: "boot_event list \<Rightarrow> bool" where
  "per_node_inits_first [] = True"
| "per_node_inits_first (ev # evs) =
     (if is_per_thread_init ev then list_all (\<lambda>x. \<not> is_per_node_init x) evs
      else per_node_inits_first evs)"

text \<open>Entry \<open>i\<close> of the key array as \<open>initialize_global\<close> writes it.\<close>

definition tunnel_entry :: "nat \<Rightarrow> hmac_sa_entry" where
  "tunnel_entry i = \<lparr>hmac_key = take HMAC_KEY_SIZE abcd_key, entry_idx = int i\<rparr>"

section \<open>Sample inputs\<close>

text \<open>
  Concrete inputs for the instances below: a digest function of the right length that
  stands in for OpenSSL's \<open>SHA1\<close> (the theorems hold for every such function), two
  annotation tables, a packet with an 8-byte payload (IP total length 48, header length
  20) and room for the digest, a packet whose IP header says that it is all there is
  (total length 20), and one whose IP header gives the total length 30, less than the
  40 bytes of an IP header and a digest.
\<close>

definition stand_in_digest :: "byte list \<Rightarrow> byte list" where
  "stand_in_digest m = replicate SHA_DIGEST_LENGTH (word_of_nat (length m))"

definition flow_anno :: "64 word \<Rightarrow> annotation_set" where
  "flow_anno k = \<lparr>isset = (\<lambda>a. a = NBA_ANNO_IPSEC_FLOW_ID), anno_values = (\<lambda>a. k)\<rparr>"

definition no_anno :: annotation_set where
  "no_anno = \<lparr>isset = (\<lambda>a. False), anno_values = (\<lambda>a. 0)\<rparr>"

definition sample_data :: "byte list" where
  "sample_data = replicate 14 0 @ [0x45, 0, 0, 48] @ replicate 16 0
                 @ [1, 2, 3, 4, 5, 6, 7, 8] @ replicate 20 0"

definition header_only_data :: "byte list" where
  "header_only_data = replicate 14 0 @ [0x45, 0, 0, 20] @ replicate 46 0"

definition short_total_length_data :: "byte list" where
  "short_total_length_data = replicate 14 0 @ [0x45, 0, 0, 30] @ replicate 46 0"

section \<open>Theorems\<close>

subsection \<open>Log level\<close>

lemma parse_loglevel_accepts:
  "(\<exists>l. parse_loglevel s = Inr l) \<longleftrightarrow>
     s \<in> {''debug'', ''info'', ''notice'', ''warning'', ''error'', ''critical'', ''emergency''}"
  unfolding parse_loglevel_def by (simp only: split: if_split) auto

text \<open>
  C6.  The claim lists eight accepted values, among them \<open>alert\<close>, as does the usage text
  printed by \<open>main\<close> (line 149).  The \<open>strcmp\<close> chain has no branch for \<open>alert\<close>:
  \<open>--loglevel=alert\<close> ends in \<open>rte_exit(EXIT_FAILURE, ...)\<close>, and no argument at all
  yields \<open>RTE_LOG_ALERT\<close>.
\<close>

theorem loglevel_alert_rejected:
  "parse_loglevel ''alert'' = Inl (Exit EXIT_FAILURE ''Invalid value for loglevel: alert'')
   \<and> parse_opts \<lparr>preserve_latency = False, loglevel = RTE_LOG_INFO\<rparr> [OptL ''alert'']
       = Inl (Exit EXIT_FAILURE ''Invalid value for loglevel: alert'')
   \<and> (\<forall>s. parse_loglevel s \<noteq> Inr RTE_LOG_ALERT)"
  by (simp add: parse_loglevel_def handle_opt_def)

subsection \<open>Positional arguments\<close>

text \<open>
  The test and the loop together end the program exactly when there are more than two
  positional arguments.
\<close>

lemma check_positional_exits_iff:
  assumes "0 \<le> optind" and "optind \<le> int (length argv)"
  shows "(\<exists>e. check_positional argv optind = Inl e) \<longleftrightarrow> 2 < int (length argv) - optind"
proof (cases "optind + 2 < int (length argv) - 1")
  case True
  then show ?thesis by (simp add: check_positional_def)
next
  case False
  show ?thesis
  proof (cases "optind < int (length argv)")
    case l0: False
    with assms False show ?thesis
      by (simp add: check_positional_def)
  next
    case l0: True
    show ?thesis
    proof (cases "optind + 1 < int (length argv)")
      case l1: False
      with assms False l0 show ?thesis
        by (simp add: check_positional_def)
    next
      case l1: True
      show ?thesis
      proof (cases "optind + 2 < int (length argv)")
        case l2: False
        with assms False l0 l1 show ?thesis
          by (simp add: check_positional_def)
      next
        case l2: True
        with assms False l0 l1 show ?thesis
          by (simp add: check_positional_def)
      qed
    qed
  qed
qed

text \<open>
  C5.  The claim says that fewer than two positional arguments are a fatal error.  The
  test of line 207, \<open>optind + 2 < argc - 1\<close>, is true only for four or more positional
  arguments, although its message is "You need at least two positional arguments" /
  "Not enough NBA arguments".  With the single positional argument \<open>sys.conf\<close>
  (\<open>argv = [prog, sys.conf]\<close>, \<open>optind = 1\<close>) nothing exits, and \<open>pipeline_config\<close> is
  left uninitialised.
\<close>

theorem one_positional_argument_accepted:
  "check_positional [''main'', ''sys.conf''] 1 =
     Inr \<lparr>system_config = Some ''sys.conf'', pipeline_config = None\<rparr>"
  by (simp add: check_positional_def strncpy_def PATH_MAX_def)

subsection \<open>Signal handler\<close>

lemma notify_io_fields:
  "async_sent (notify_io js st) = async_sent st @ map IOWorker js"
  "loops_broken (notify_io js st) = loops_broken st @ map IOWorker js"
  "terminated (notify_io js st) = terminated st"
  by (induction js arbitrary: st) auto

text \<open>
  C10.  An invocation of \<open>handle_signal\<close> on a thread other than the main thread leaves
  the whole state as it was: nothing is sent, no loop is broken, \<open>_terminated\<close> keeps its
  value.  An invocation on the main thread notifies the coprocessor threads and every
  I/O thread, breaks the loop of every I/O thread and sets \<open>_terminated\<close>.
\<close>

theorem handle_signal_other_thread:
  "(self \<noteq> main_thread_id st \<longrightarrow> handle_signal self st = st)
   \<and> (self = main_thread_id st \<longrightarrow>
        terminated (handle_signal self st)
        \<and> loops_broken (handle_signal self st)
            = loops_broken st @ map IOWorker [0..<num_io_threads st]
        \<and> async_sent (handle_signal self st)
            = async_sent st
              @ map CoprocWorker (filter (\<lambda>i. i \<in> set (coproc_ctx_nodes st)) [0..<num_nodes st])
              @ map IOWorker [0..<num_io_threads st])"
  by (simp add: handle_signal_def Let_def notify_io_fields notify_coprocs_def)

theorem handle_signal_other_thread_witness:
  "handle_signal 2 \<lparr>main_thread_id = 1, num_nodes = 1, num_io_threads = 2,
       coproc_ctx_nodes = [0], async_sent = [], loops_broken = [], lcores_waited = False,
       exit_cond_signals = 0, terminated = False\<rparr>
     = \<lparr>main_thread_id = 1, num_nodes = 1, num_io_threads = 2,
       coproc_ctx_nodes = [0], async_sent = [], loops_broken = [], lcores_waited = False,
       exit_cond_signals = 0, terminated = False\<rparr>
   \<and> terminated (handle_signal 1 \<lparr>main_thread_id = 1, num_nodes = 1, num_io_threads = 2,
       coproc_ctx_nodes = [0], async_sent = [], loops_broken = [], lcores_waited = False,
       exit_cond_signals = 0, terminated = False\<rparr>)"
  using handle_signal_other_thread [of 2 "\<lparr>main_thread_id = 1, num_nodes = 1, num_io_threads = 2,
       coproc_ctx_nodes = [0], async_sent = [], loops_broken = [], lcores_waited = False,
       exit_cond_signals = 0, terminated = False\<rparr>"]
    handle_signal_other_thread [of 1 "\<lparr>main_thread_id = 1, num_nodes = 1, num_io_threads = 2,
       coproc_ctx_nodes = [0], async_sent = [], loops_broken = [], lcores_waited = False,
       exit_cond_signals = 0, terminated = False\<rparr>"]
  by simp

subsection \<open>Software rings\<close>

lemma create_queue_Inr:
  "create_queue lib ps conf = Inr r \<Longrightarrow>
     ring_count r = queue_length_of ps (template conf) \<and> ring_socket r = conf_node_id conf
     \<and> ring_flags r = 0 \<and> ring_water_mark r = queue_length_of ps (template conf) - 8"
  by (auto simp: create_queue_def Let_def split: if_splits)

lemma no_flag_set: "ring_flags r = 0 \<Longrightarrow> \<not> sp_enqueue r \<and> \<not> sc_dequeue r"
  by (simp add: sp_enqueue_def sc_dequeue_def)

text \<open>
  C7 (as amended).  Every ring of the loop of line 448 is created with the flags word 0,
  so neither the single-producer nor the single-consumer flag is set, whatever the
  queue configuration says; its length is 32 for \<open>SWRXQ\<close> and the configured length for
  the task input and completion queues; the watermark asked for is the length minus 8
  (in 32-bit unsigned arithmetic).
\<close>

theorem rings_created_without_sp_sc_flags:
  "prepare_queues lib ps confs = Inr rings \<Longrightarrow>
     list_all2 (\<lambda>conf r.
        ring_count r = queue_length_of ps (template conf)
        \<and> ring_flags r = 0 \<and> \<not> sp_enqueue r \<and> \<not> sc_dequeue r
        \<and> ring_water_mark r = ring_count r - 8) confs rings"
proof (induction confs arbitrary: rings)
  case Nil
  then show ?case by simp
next
  case (Cons conf confs)
  from Cons.prems obtain r rs where
    r: "create_queue lib ps conf = Inr r" and
    rs: "prepare_queues lib ps confs = Inr rs" and
    eq: "rings = r # rs"
    by (auto split: sum.splits)
  from create_queue_Inr [OF r] no_flag_set [of r] Cons.IH [OF rs] eq
  show ?case by simp
qed

theorem rings_created_without_sp_sc_flags_witness:
  "list_all2 (\<lambda>conf r.
        ring_count r = queue_length_of [''COPROC_INPUTQ_LENGTH'' \<mapsto> 64] (template conf)
        \<and> ring_flags r = 0 \<and> \<not> sp_enqueue r \<and> \<not> sc_dequeue r
        \<and> ring_water_mark r = ring_count r - 8)
     [\<lparr>conf_node_id = 0, template = SWRXQ, mp_enq = False, mc_deq = False\<rparr>,
      \<lparr>conf_node_id = 1, template = TASKINQ, mp_enq = False, mc_deq = False\<rparr>]
     [\<lparr>ring_count = 32, ring_socket = 0, ring_flags = 0, ring_water_mark = 24\<rparr>,
      \<lparr>ring_count = 64, ring_socket = 1, ring_flags = 0, ring_water_mark = 56\<rparr>]"
  by (rule rings_created_without_sp_sc_flags [of dpdk_accepts])
     (simp add: create_queue_def queue_length_of_def sysparam_def dpdk_accepts_def)

text \<open>
  The claim as stated fails: the receive ring that \<open>main\<close> creates for an \<open>SWRXQ\<close>
  configuration has neither the single-producer nor the single-consumer flag.
\<close>

theorem swrxq_ring_not_sp_sc:
  "prepare_queues dpdk_accepts Map.empty
      [\<lparr>conf_node_id = 0, template = SWRXQ, mp_enq = False, mc_deq = False\<rparr>]
    = Inr [\<lparr>ring_count = 32, ring_socket = 0, ring_flags = 0, ring_water_mark = 24\<rparr>]
   \<and> \<not> sp_enqueue \<lparr>ring_count = 32, ring_socket = 0, ring_flags = 0, ring_water_mark = 24\<rparr>
   \<and> \<not> sc_dequeue \<lparr>ring_count = 32, ring_socket = 0, ring_flags = 0, ring_water_mark = 24\<rparr>"
  by (simp add: create_queue_def queue_length_of_def dpdk_accepts_def sp_enqueue_def
      sc_dequeue_def)

subsection \<open>Bootstrap order\<close>

lemma per_node_inner_phase:
  "\<forall>e \<in> set (fst (per_node_inner n ctxs ni)). phase e = 3"
  by (induction n ctxs ni rule: per_node_inner.induct) (auto split: prod.splits)

lemma per_node_outer_phase: "\<forall>e \<in> set (per_node_outer ns ctxs ni). phase e = 3"
proof (induction ns ctxs ni rule: per_node_outer.induct)
  case (1 ctxs ni)
  then show ?case by simp
next
  case (2 n ns ctxs ni)
  obtain es ni' where p: "per_node_inner n ctxs ni = (es, ni')"
    by (cases "per_node_inner n ctxs ni")
  from per_node_inner_phase [of n ctxs ni] p have "\<forall>e \<in> set es. phase e = 3"
    by simp
  with "2.IH" [of "(es, ni')" es ni'] p show ?case
    by auto
qed

lemma offload_inner_phase:
  "offload_inner cps n ctxs ni = Inr (es, ni') \<Longrightarrow> \<forall>e \<in> set es. phase e = 4"
  by (induction cps n ctxs ni arbitrary: es ni' rule: offload_inner.induct)
     (auto split: if_splits sum.splits prod.splits)

lemma offload_outer_phase:
  "offload_outer cps ns ctxs ni = Inr es \<Longrightarrow> \<forall>e \<in> set es. phase e = 4"
proof (induction cps ns ctxs ni arbitrary: es rule: offload_outer.induct)
  case (1 cps ctxs ni)
  then show ?case by simp
next
  case (2 cps n ns ctxs ni)
  from "2.prems" obtain es1 ni' es2 where
    i: "offload_inner cps n ctxs ni = Inr (es1, ni')" and
    o: "offload_outer cps ns ctxs ni' = Inr es2" and
    e: "es = es1 @ es2"
    by (auto split: sum.splits prod.splits)
  from offload_inner_phase [OF i] "2.IH" [OF i refl o] e show ?case
    by auto
qed

lemma loop_start_phase:
  "loop_start cps ns = Inr es \<Longrightarrow> \<forall>e \<in> set es. phase e = 6"
  by (induction cps ns arbitrary: es rule: loop_start.induct)
     (auto split: if_splits sum.splits)

lemma spawn_coprocs_phase: "\<forall>e \<in> set (spawn_coprocs ns). phase e = 0"
  by (induction ns) auto

lemma sorted_segment:
  fixes f :: "'a \<Rightarrow> nat"
  assumes "\<forall>e \<in> set es. f e = k"
    and "sorted (map f fs) \<and> (\<forall>x \<in> set fs. k' \<le> f x)"
    and "k \<le> k'"
  shows "sorted (map f (es @ fs)) \<and> (\<forall>x \<in> set (es @ fs). k \<le> f x)"
proof -
  have low: "\<forall>x \<in> set fs. k \<le> f x"
    using assms(2,3) by (meson le_trans)
  have "sorted (map f es)"
    using assms(1) by (induction es) auto
  with assms(1,2) low have "sorted (map f (es @ fs))"
    by (simp add: sorted_append)
  moreover have "\<forall>x \<in> set (es @ fs). k \<le> f x"
    using assms(1) low by auto
  ultimately show ?thesis by simp
qed

lemma filter_phase_other:
  "\<forall>e \<in> set es. phase e = k \<Longrightarrow> k \<noteq> j \<Longrightarrow> filter (\<lambda>e. phase e = j) es = []"
  by (induction es) auto

lemma filter_phase_same:
  "\<forall>e \<in> set es. phase e = k \<Longrightarrow> filter (\<lambda>e. phase e = k) es = es"
  by (induction es) auto

lemma bootstrap_Inr:
  assumes "bootstrap c = Inr tr"
  obtains ctx0 rest offl starts where
    "comp_thread_ctxs c = ctx0 # rest"
    "\<forall>e \<in> set offl. phase e = 4"
    "\<forall>e \<in> set starts. phase e = 6"
    "tr = spawn_coprocs (coproc_nodes c) @ map BuildElementGraph (comp_thread_ctxs c)
          @ [InitGraphGlobal ctx0]
          @ per_node_outer (existing_nodes c) (comp_thread_ctxs c) [] @ offl
          @ map InitGraphPerThread (comp_thread_ctxs c) @ starts
          @ map PrepareIOContext [0..<io_thread_count c] @ [NotifyReady, RemoteLaunch]"
proof -
  define cps where "cps = coproc_nodes c"
  define ctxs where "ctxs = comp_thread_ctxs c"
  define nodes where "nodes = existing_nodes c"
  from assms obtain ctx0 rest offl starts where
    ctxs: "ctxs = ctx0 # rest" and
    offl: "(if 0 < length cps then offload_outer cps nodes ctxs [] else Inr []) = Inr offl" and
    starts: "(if 0 < length cps then loop_start cps nodes else Inr []) = Inr starts" and
    tr: "tr = spawn_coprocs cps @ map BuildElementGraph ctxs @ [InitGraphGlobal ctx0]
              @ per_node_outer nodes ctxs [] @ offl @ map InitGraphPerThread ctxs @ starts
              @ map PrepareIOContext [0..<io_thread_count c] @ [NotifyReady, RemoteLaunch]"
    unfolding bootstrap_def Let_def cps_def ctxs_def nodes_def
    by (auto split: list.splits sum.splits)
  have p4: "\<forall>e \<in> set offl. phase e = 4"
    using offl offload_outer_phase by (auto split: if_splits)
  have p6: "\<forall>e \<in> set starts. phase e = 6"
    using starts loop_start_phase by (auto split: if_splits)
  from that [OF _ p4 p6] ctxs tr show thesis
    unfolding cps_def ctxs_def nodes_def by blast
qed

lemma bootstrap_sorted:
  assumes "bootstrap c = Inr tr"
  shows "sorted (map phase tr)"
proof -
  define cps where "cps = coproc_nodes c"
  define ctxs where "ctxs = comp_thread_ctxs c"
  define nodes where "nodes = existing_nodes c"
  from assms obtain ctx0 rest offl starts where
    p4: "\<forall>e \<in> set offl. phase e = 4" and
    p6: "\<forall>e \<in> set starts. phase e = 6" and
    tr: "tr = spawn_coprocs cps @ map BuildElementGraph ctxs @ [InitGraphGlobal ctx0]
              @ per_node_outer nodes ctxs [] @ offl @ map InitGraphPerThread ctxs @ starts
              @ map PrepareIOContext [0..<io_thread_count c] @ [NotifyReady, RemoteLaunch]"
    unfolding cps_def ctxs_def nodes_def by (rule bootstrap_Inr)
  let ?t8 = "[NotifyReady, RemoteLaunch]"
  let ?t7 = "map PrepareIOContext [0..<io_thread_count c] @ ?t8"
  let ?t6 = "starts @ ?t7"
  let ?t5 = "map InitGraphPerThread ctxs @ ?t6"
  let ?t4 = "offl @ ?t5"
  let ?t3 = "per_node_outer nodes ctxs [] @ ?t4"
  let ?t2 = "[InitGraphGlobal ctx0] @ ?t3"
  let ?t1 = "map BuildElementGraph ctxs @ ?t2"
  have s8: "sorted (map phase ?t8) \<and> (\<forall>x \<in> set ?t8. 8 \<le> phase x)"
    by simp
  have s7: "sorted (map phase ?t7) \<and> (\<forall>x \<in> set ?t7. 7 \<le> phase x)"
    by (rule sorted_segment [OF _ s8]) auto
  have s6: "sorted (map phase ?t6) \<and> (\<forall>x \<in> set ?t6. 6 \<le> phase x)"
    by (rule sorted_segment [OF p6 s7]) simp
  have s5: "sorted (map phase ?t5) \<and> (\<forall>x \<in> set ?t5. 5 \<le> phase x)"
    by (rule sorted_segment [OF _ s6]) auto
  have s4: "sorted (map phase ?t4) \<and> (\<forall>x \<in> set ?t4. 4 \<le> phase x)"
    by (rule sorted_segment [OF p4 s5]) simp
  have s3: "sorted (map phase ?t3) \<and> (\<forall>x \<in> set ?t3. 3 \<le> phase x)"
    by (rule sorted_segment [OF per_node_outer_phase s4]) simp
  have s2: "sorted (map phase ?t2) \<and> (\<forall>x \<in> set ?t2. 2 \<le> phase x)"
    by (rule sorted_segment [OF _ s3]) auto
  have s1: "sorted (map phase ?t1) \<and> (\<forall>x \<in> set ?t1. 1 \<le> phase x)"
    by (rule sorted_segment [OF _ s2]) auto
  have "sorted (map phase (spawn_coprocs cps @ ?t1)) \<and>
        (\<forall>x \<in> set (spawn_coprocs cps @ ?t1). 0 \<le> phase x)"
    by (rule sorted_segment [OF spawn_coprocs_phase s1]) simp
  then show ?thesis by (simp add: tr)
qed

lemma bootstrap_phase_members:
  assumes "bootstrap c = Inr tr"
  shows "filter (\<lambda>e. phase e = 2) tr = [InitGraphGlobal (hd (comp_thread_ctxs c))]"
    and "filter (\<lambda>e. phase e = 5) tr = map InitGraphPerThread (comp_thread_ctxs c)"
    and "last tr = RemoteLaunch"
proof -
  from assms obtain ctx0 rest offl starts where
    c0: "comp_thread_ctxs c = ctx0 # rest" and
    p4: "\<forall>e \<in> set offl. phase e = 4" and
    p6: "\<forall>e \<in> set starts. phase e = 6" and
    tr: "tr = spawn_coprocs (coproc_nodes c) @ map BuildElementGraph (comp_thread_ctxs c)
          @ [InitGraphGlobal ctx0]
          @ per_node_outer (existing_nodes c) (comp_thread_ctxs c) [] @ offl
          @ map InitGraphPerThread (comp_thread_ctxs c) @ starts
          @ map PrepareIOContext [0..<io_thread_count c] @ [NotifyReady, RemoteLaunch]"
    by (rule bootstrap_Inr)
  note p0 = spawn_coprocs_phase [of "coproc_nodes c"]
  note p3 = per_node_outer_phase [of "existing_nodes c" "comp_thread_ctxs c" "[]"]
  have f2: "filter (\<lambda>e. phase e = 2) (spawn_coprocs (coproc_nodes c)) = []"
       "filter (\<lambda>e. phase e = 2) (per_node_outer (existing_nodes c) (comp_thread_ctxs c) []) = []"
       "filter (\<lambda>e. phase e = 2) offl = []" "filter (\<lambda>e. phase e = 2) starts = []"
    using p0 p3 p4 p6 by (simp_all add: filter_phase_other)
  have f5: "filter (\<lambda>e. phase e = 5) (spawn_coprocs (coproc_nodes c)) = []"
       "filter (\<lambda>e. phase e = 5) (per_node_outer (existing_nodes c) (comp_thread_ctxs c) []) = []"
       "filter (\<lambda>e. phase e = 5) offl = []" "filter (\<lambda>e. phase e = 5) starts = []"
    using p0 p3 p4 p6 by (simp_all add: filter_phase_other)
  show "filter (\<lambda>e. phase e = 2) tr = [InitGraphGlobal (hd (comp_thread_ctxs c))]"
    unfolding tr using f2 c0 by (simp add: filter_map comp_def)
  show "filter (\<lambda>e. phase e = 5) tr = map InitGraphPerThread (comp_thread_ctxs c)"
    unfolding tr using f5 by (simp add: filter_map comp_def)
  show "last tr = RemoteLaunch"
    unfolding tr by simp
qed

lemma offload_inner_total:
  "n \<in> set cps \<Longrightarrow> \<exists>r. offload_inner cps n ctxs ni = Inr r"
proof (induction ctxs arbitrary: ni)
  case Nil
  then show ?case by simp
next
  case (Cons ctx ctxs)
  from Cons.IH [OF Cons.prems, of "n # ni"] Cons.IH [OF Cons.prems, of ni] Cons.prems
  show ?case by (auto split: sum.splits)
qed

lemma offload_outer_total:
  "set ns \<subseteq> set cps \<Longrightarrow> \<exists>es. offload_outer cps ns ctxs ni = Inr es"
proof (induction cps ns ctxs ni rule: offload_outer.induct)
  case (1 cps ctxs ni)
  then show ?case by simp
next
  case (2 cps n ns ctxs ni)
  from "2.prems" offload_inner_total [of n cps ctxs ni]
  obtain es ni' where i: "offload_inner cps n ctxs ni = Inr (es, ni')"
    by auto
  from "2.IH" [OF i refl] "2.prems" obtain es' where
    "offload_outer cps ns ctxs ni' = Inr es'"
    by auto
  with i show ?case by simp
qed

lemma loop_start_total: "set ns \<subseteq> set cps \<Longrightarrow> \<exists>es. loop_start cps ns = Inr es"
  by (induction cps ns rule: loop_start.induct) auto

text \<open>
  The two dereferences are the only faults of the sequence as it is written here (the
  allocations and the \<open>assert\<close>s on them are left out): it runs through when there is a
  computation thread and every existing node has a coprocessor thread, or there is none.
\<close>

lemma bootstrap_total:
  assumes "comp_thread_ctxs c \<noteq> []"
    and "coproc_nodes c = [] \<or> set (existing_nodes c) \<subseteq> set (coproc_nodes c)"
  shows "\<exists>tr. bootstrap c = Inr tr"
proof -
  from assms(1) obtain ctx0 rest where c0: "comp_thread_ctxs c = ctx0 # rest"
    by (cases "comp_thread_ctxs c") auto
  show ?thesis
  proof (cases "coproc_nodes c = []")
    case True
    with c0 show ?thesis
      unfolding bootstrap_def Let_def by simp
  next
    case False
    with assms(2) have sub: "set (existing_nodes c) \<subseteq> set (coproc_nodes c)"
      by simp
    from offload_outer_total [OF sub, of "comp_thread_ctxs c" "[]"] obtain offl where
      o: "offload_outer (coproc_nodes c) (existing_nodes c) (comp_thread_ctxs c) [] = Inr offl"
      by blast
    from loop_start_total [OF sub] obtain starts where
      l: "loop_start (coproc_nodes c) (existing_nodes c) = Inr starts"
      by blast
    from False c0 o l show ?thesis
      unfolding bootstrap_def Let_def by simp
  qed
qed

text \<open>
  The events of each walk, written out.  \<open>existing_nodes\<close> is the iteration of a set, so
  no node comes twice; the context that acts for a node is the first one of
  \<open>comp_thread_ctxs\<close> on that node.
\<close>

lemma per_node_inner_done:
  "n \<in> set ni \<Longrightarrow> per_node_inner n ctxs ni = ([], ni)"
  by (induction ctxs) auto

lemma per_node_inner_find:
  "n \<notin> set ni \<Longrightarrow> per_node_inner n ctxs ni =
     (case find (\<lambda>x. node_id x = n) ctxs of
        None \<Rightarrow> ([], ni)
      | Some x \<Rightarrow> ([InitGraphPerNode x], n # ni))"
  by (induction ctxs) (auto simp: per_node_inner_done)

lemma per_node_outer_leaders:
  "distinct ns \<Longrightarrow> set ns \<inter> set ni = {} \<Longrightarrow>
     per_node_outer ns ctxs ni =
       map InitGraphPerNode (List.map_filter (\<lambda>n. find (\<lambda>x. node_id x = n) ctxs) ns)"
proof (induction ns arbitrary: ni)
  case Nil
  then show ?case by (simp add: map_filter_simps)
next
  case (Cons n ns)
  then have n: "n \<notin> set ni" and d: "distinct ns" and nn: "n \<notin> set ns"
    and dis: "set ns \<inter> set ni = {}"
    by auto
  show ?case
  proof (cases "find (\<lambda>x. node_id x = n) ctxs")
    case None
    with Cons.IH [OF d dis] n show ?thesis
      by (simp add: per_node_inner_find map_filter_simps)
  next
    case (Some x)
    from dis nn have "set ns \<inter> set (n # ni) = {}" by auto
    from Cons.IH [OF d this] Some n show ?thesis
      by (simp add: per_node_inner_find map_filter_simps)
  qed
qed

lemma offload_inner_done:
  "n \<in> set ni \<Longrightarrow> offload_inner cps n ctxs ni = Inr ([], ni)"
  by (induction ctxs) auto

lemma offload_inner_find:
  "n \<notin> set ni \<Longrightarrow> offload_inner cps n ctxs ni =
     (case find (\<lambda>x. node_id x = n) ctxs of
        None \<Rightarrow> Inr ([], ni)
      | Some x \<Rightarrow>
          if n \<notin> set cps then Inl (BadDeref ''coprocessor_threads[node_id].coproc_ctx'')
          else Inr ([OffloadInitProceed (node_id x) x, OffloadInitDoneWait (node_id x)], n # ni))"
  by (induction ctxs) (auto simp: offload_inner_done)

lemma offload_outer_leaders:
  "distinct ns \<Longrightarrow> set ns \<inter> set ni = {} \<Longrightarrow> offload_outer cps ns ctxs ni = Inr es \<Longrightarrow>
     es = concat (map (\<lambda>x. [OffloadInitProceed (node_id x) x, OffloadInitDoneWait (node_id x)])
            (List.map_filter (\<lambda>n. find (\<lambda>x. node_id x = n) ctxs) ns))"
proof (induction ns arbitrary: ni es)
  case Nil
  then show ?case by (simp add: map_filter_simps)
next
  case (Cons n ns)
  then have n: "n \<notin> set ni" and d: "distinct ns" and nn: "n \<notin> set ns"
    and dis: "set ns \<inter> set ni = {}"
    by auto
  show ?case
  proof (cases "find (\<lambda>x. node_id x = n) ctxs")
    case None
    with Cons.prems(3) n have "offload_outer cps ns ctxs ni = Inr es"
      by (simp add: offload_inner_find split: sum.splits)
    from Cons.IH [OF d dis this] None show ?thesis
      by (simp add: map_filter_simps)
  next
    case (Some x)
    from dis nn have dis': "set ns \<inter> set (n # ni) = {}" by auto
    from Cons.prems(3) n Some obtain es' where
      o: "offload_outer cps ns ctxs (n # ni) = Inr es'" and
      e: "es = [OffloadInitProceed (node_id x) x, OffloadInitDoneWait (node_id x)] @ es'"
      by (auto simp: offload_inner_find split: sum.splits if_splits)
    from Cons.IH [OF d dis' o] e Some show ?thesis
      by (simp add: map_filter_simps)
  qed
qed

lemma loop_start_events: "loop_start cps ns = Inr es \<Longrightarrow> es = map LoopStartProceed ns"
  by (induction cps ns arbitrary: es rule: loop_start.induct)
     (auto split: if_splits sum.splits)

lemma spawn_coprocs_pairs:
  "spawn_coprocs ns = concat (map (\<lambda>n. [SpawnCoproc n, ThreadInitDoneWait n]) ns)"
  by (induction ns) auto

lemma node_leaders_nodes:
  "set ns \<subseteq> node_id ` set ctxs \<Longrightarrow>
     map node_id (List.map_filter (\<lambda>n. find (\<lambda>x. node_id x = n) ctxs) ns) = ns"
proof (induction ns)
  case Nil
  then show ?case by (simp add: map_filter_simps)
next
  case (Cons n ns)
  then obtain x where "find (\<lambda>x. node_id x = n) ctxs = Some x"
    by (cases "find (\<lambda>x. node_id x = n) ctxs") (auto simp: find_None_iff)
  moreover from this have "node_id x = n"
    by (auto simp: find_Some_iff)
  ultimately show ?case using Cons by (simp add: map_filter_simps)
qed

lemma per_node_inner_cases:
  "per_node_inner n ctxs ni =
     (if n \<in> set ni then ([], ni)
      else case find (\<lambda>x. node_id x = n) ctxs of
             None \<Rightarrow> ([], ni)
           | Some x \<Rightarrow> ([InitGraphPerNode x], n # ni))"
  by (simp add: per_node_inner_done per_node_inner_find)

lemma offload_inner_cases:
  "offload_inner cps n ctxs ni =
     (if n \<in> set ni then Inr ([], ni)
      else case find (\<lambda>x. node_id x = n) ctxs of
             None \<Rightarrow> Inr ([], ni)
           | Some x \<Rightarrow>
               if n \<notin> set cps then Inl (BadDeref ''coprocessor_threads[node_id].coproc_ctx'')
               else Inr ([OffloadInitProceed (node_id x) x, OffloadInitDoneWait (node_id x)],
                         n # ni))"
  by (simp add: offload_inner_done offload_inner_find)

lemma offload_inner_same_walk:
  assumes "offload_inner cps n ctxs ni = Inr (es, ni')"
  shows "\<exists>ls. per_node_inner n ctxs ni = (map InitGraphPerNode ls, ni')
           \<and> es = concat (map (\<lambda>x. [OffloadInitProceed (node_id x) x,
                                      OffloadInitDoneWait (node_id x)]) ls)"
proof (cases "n \<in> set ni")
  case True
  with assms show ?thesis
    by (intro exI [of _ "[]"]) (simp add: offload_inner_cases per_node_inner_cases)
next
  case False
  show ?thesis
  proof (cases "find (\<lambda>x. node_id x = n) ctxs")
    case None
    with assms False show ?thesis
      by (intro exI [of _ "[]"]) (simp add: offload_inner_cases per_node_inner_cases)
  next
    case (Some x)
    with assms False show ?thesis
      by (intro exI [of _ "[x]"])
         (simp add: offload_inner_cases per_node_inner_cases split: if_splits)
  qed
qed

lemma offload_outer_same_walk:
  "offload_outer cps ns ctxs ni = Inr es \<Longrightarrow>
     \<exists>ls. per_node_outer ns ctxs ni = map InitGraphPerNode ls
        \<and> es = concat (map (\<lambda>x. [OffloadInitProceed (node_id x) x,
                                   OffloadInitDoneWait (node_id x)]) ls)"
proof (induction ns arbitrary: ni es)
  case Nil
  then show ?case by simp
next
  case (Cons n ns)
  from Cons.prems obtain es1 ni' es2 where
    i: "offload_inner cps n ctxs ni = Inr (es1, ni')" and
    o: "offload_outer cps ns ctxs ni' = Inr es2" and
    e: "es = es1 @ es2"
    by (auto split: sum.splits prod.splits)
  from offload_inner_same_walk [OF i] obtain l1 where
    p1: "per_node_inner n ctxs ni = (map InitGraphPerNode l1, ni')" and
    e1: "es1 = concat (map (\<lambda>x. [OffloadInitProceed (node_id x) x,
                                   OffloadInitDoneWait (node_id x)]) l1)"
    by blast
  from Cons.IH [OF o] obtain l2 where
    p2: "per_node_outer ns ctxs ni' = map InitGraphPerNode l2" and
    e2: "es2 = concat (map (\<lambda>x. [OffloadInitProceed (node_id x) x,
                                   OffloadInitDoneWait (node_id x)]) l2)"
    by blast
  show ?case
    by (intro exI [of _ "l1 @ l2"]) (simp add: p1 p2 e e1 e2)
qed

lemma per_node_outer_events:
  "\<exists>ls. per_node_outer ns ctxs ni = map InitGraphPerNode ls"
proof (induction ns arbitrary: ni)
  case Nil
  then show ?case by simp
next
  case (Cons n ns)
  have "\<exists>l1 ni'. per_node_inner n ctxs ni = (map InitGraphPerNode l1, ni')"
  proof (cases "n \<in> set ni \<or> find (\<lambda>x. node_id x = n) ctxs = None")
    case True
    then have "per_node_inner n ctxs ni = (map InitGraphPerNode [], ni)"
      by (auto simp: per_node_inner_cases)
    then show ?thesis by blast
  next
    case False
    then obtain x where "per_node_inner n ctxs ni = (map InitGraphPerNode [x], n # ni)"
      by (auto simp: per_node_inner_cases)
    then show ?thesis by blast
  qed
  then obtain l1 ni' where p1: "per_node_inner n ctxs ni = (map InitGraphPerNode l1, ni')"
    by blast
  from Cons.IH [of ni'] obtain l2 where "per_node_outer ns ctxs ni' = map InitGraphPerNode l2"
    by blast
  with p1 show ?case
    by (intro exI [of _ "l1 @ l2"]) simp
qed

lemma bootstrap_structure:
  assumes "bootstrap c = Inr tr"
  shows "\<exists>ls. tr = concat (map (\<lambda>n. [SpawnCoproc n, ThreadInitDoneWait n]) (coproc_nodes c))
      @ map BuildElementGraph (comp_thread_ctxs c)
      @ [InitGraphGlobal (hd (comp_thread_ctxs c))]
      @ map InitGraphPerNode ls
      @ (if coproc_nodes c = [] then []
         else concat (map (\<lambda>x. [OffloadInitProceed (node_id x) x, OffloadInitDoneWait (node_id x)])
                ls))
      @ map InitGraphPerThread (comp_thread_ctxs c)
      @ (if coproc_nodes c = [] then [] else map LoopStartProceed (existing_nodes c))
      @ map PrepareIOContext [0..<io_thread_count c]
      @ [NotifyReady, RemoteLaunch]
    \<and> (distinct (existing_nodes c) \<longrightarrow>
         ls = List.map_filter (\<lambda>n. find (\<lambda>x. node_id x = n) (comp_thread_ctxs c))
                (existing_nodes c))"
proof -
  define cps where "cps = coproc_nodes c"
  define ctxs where "ctxs = comp_thread_ctxs c"
  define nodes where "nodes = existing_nodes c"
  from assms obtain ctx0 rest offl starts where
    ctxs: "ctxs = ctx0 # rest" and
    offl: "(if 0 < length cps then offload_outer cps nodes ctxs [] else Inr []) = Inr offl" and
    starts: "(if 0 < length cps then loop_start cps nodes else Inr []) = Inr starts" and
    tr: "tr = spawn_coprocs cps @ map BuildElementGraph ctxs @ [InitGraphGlobal ctx0]
              @ per_node_outer nodes ctxs [] @ offl @ map InitGraphPerThread ctxs @ starts
              @ map PrepareIOContext [0..<io_thread_count c] @ [NotifyReady, RemoteLaunch]"
    unfolding bootstrap_def Let_def cps_def ctxs_def nodes_def
    by (auto split: list.splits sum.splits)
  obtain ls where
    pn: "per_node_outer nodes ctxs [] = map InitGraphPerNode ls" and
    of: "offl = (if cps = [] then []
         else concat (map (\<lambda>x. [OffloadInitProceed (node_id x) x, OffloadInitDoneWait (node_id x)])
                ls))"
  proof (cases "cps = []")
    case True
    with offl per_node_outer_events [of nodes ctxs "[]"] that show ?thesis
      by auto
  next
    case False
    with offl have "offload_outer cps nodes ctxs [] = Inr offl" by simp
    from offload_outer_same_walk [OF this] False that show ?thesis
      by auto
  qed
  have st: "starts = (if cps = [] then [] else map LoopStartProceed nodes)"
    using starts loop_start_events [of cps nodes starts] by (cases "cps = []") simp_all
  have h: "hd ctxs = ctx0" using ctxs by simp
  have d: "ls = List.map_filter (\<lambda>n. find (\<lambda>x. node_id x = n) ctxs) nodes" if "distinct nodes"
  proof -
    from per_node_outer_leaders [OF that, of "[]" ctxs] pn
    have "map InitGraphPerNode ls =
        map InitGraphPerNode (List.map_filter (\<lambda>n. find (\<lambda>x. node_id x = n) ctxs) nodes)"
      by simp
    then show ?thesis
      by (simp add: inj_map_eq_map inj_on_def)
  qed
  have "tr = concat (map (\<lambda>n. [SpawnCoproc n, ThreadInitDoneWait n]) cps)
      @ map BuildElementGraph ctxs @ [InitGraphGlobal (hd ctxs)] @ map InitGraphPerNode ls
      @ (if cps = [] then []
         else concat (map (\<lambda>x. [OffloadInitProceed (node_id x) x, OffloadInitDoneWait (node_id x)])
                ls))
      @ map InitGraphPerThread ctxs
      @ (if cps = [] then [] else map LoopStartProceed nodes)
      @ map PrepareIOContext [0..<io_thread_count c] @ [NotifyReady, RemoteLaunch]"
    by (simp only: tr pn of st spawn_coprocs_pairs h)
  with d show ?thesis
    unfolding cps_def ctxs_def nodes_def by blast
qed

text \<open>
  C1 (as amended).  Whenever the bootstrap runs through, its events are in the order of
  their phases, the global initialisation runs once (by the first context), the
  per-thread initialisation once for each context, and the launch of the I/O loops is
  the last event.  The whole sequence is: each coprocessor thread spawned and its
  initialisation waited for; the element graphs built; the global initialisation; the
  per-node initialisations, by some contexts \<open>ls\<close>; then, if there is a coprocessor
  thread, for each context of \<open>ls\<close> the offload initialisation handed to the coprocessor
  thread of its node and, right after, waited for; then the per-thread initialisation of
  every context; then the coprocessor loops let go, the I/O contexts prepared, the
  computation threads notified and the I/O loops launched.  With no node twice in
  \<open>existing_nodes\<close>, \<open>ls\<close> is the first context of each existing node, in the order of the
  nodes.  So the offload initialisation comes before the per-thread one, every phase is
  over before the next begins, and all four are over before the launch.  When
  \<open>existing_nodes\<close> holds the nodes of the contexts, as lines 735-737 make it, every
  existing node has its per-node initialisation.
\<close>

theorem bootstrap_phases_in_order:
  "bootstrap c = Inr tr \<longrightarrow>
      sorted (map phase tr)
      \<and> filter (\<lambda>e. phase e = 2) tr = [InitGraphGlobal (hd (comp_thread_ctxs c))]
      \<and> filter (\<lambda>e. phase e = 5) tr = map InitGraphPerThread (comp_thread_ctxs c)
      \<and> last tr = RemoteLaunch
      \<and> (\<exists>ls.
           tr = concat (map (\<lambda>n. [SpawnCoproc n, ThreadInitDoneWait n]) (coproc_nodes c))
              @ map BuildElementGraph (comp_thread_ctxs c)
              @ [InitGraphGlobal (hd (comp_thread_ctxs c))]
              @ map InitGraphPerNode ls
              @ (if coproc_nodes c = [] then []
                 else concat
                   (map (\<lambda>x. [OffloadInitProceed (node_id x) x, OffloadInitDoneWait (node_id x)])
                     ls))
              @ map InitGraphPerThread (comp_thread_ctxs c)
              @ (if coproc_nodes c = [] then [] else map LoopStartProceed (existing_nodes c))
              @ map PrepareIOContext [0..<io_thread_count c]
              @ [NotifyReady, RemoteLaunch]
           \<and> (distinct (existing_nodes c) \<longrightarrow>
                ls = List.map_filter (\<lambda>n. find (\<lambda>x. node_id x = n) (comp_thread_ctxs c))
                       (existing_nodes c)))
      \<and> (set (existing_nodes c) = node_id ` set (comp_thread_ctxs c) \<longrightarrow>
           map node_id
             (List.map_filter (\<lambda>n. find (\<lambda>x. node_id x = n) (comp_thread_ctxs c))
                (existing_nodes c)) = existing_nodes c)"
  using bootstrap_sorted [of c tr] bootstrap_phase_members [of c tr] bootstrap_structure [of c tr]
    node_leaders_nodes [of "existing_nodes c" "comp_thread_ctxs c"]
  by simp

theorem bootstrap_phases_in_order_witness:
  "sorted (map phase
     [SpawnCoproc 0, ThreadInitDoneWait 0,
      BuildElementGraph \<lparr>core_id = 1, node_id = 0\<rparr>, BuildElementGraph \<lparr>core_id = 2, node_id = 0\<rparr>,
      InitGraphGlobal \<lparr>core_id = 1, node_id = 0\<rparr>,
      InitGraphPerNode \<lparr>core_id = 1, node_id = 0\<rparr>,
      OffloadInitProceed 0 \<lparr>core_id = 1, node_id = 0\<rparr>, OffloadInitDoneWait 0,
      InitGraphPerThread \<lparr>core_id = 1, node_id = 0\<rparr>,
      InitGraphPerThread \<lparr>core_id = 2, node_id = 0\<rparr>,
      LoopStartProceed 0, PrepareIOContext 0, NotifyReady, RemoteLaunch])
   \<and> bootstrap \<lparr>coproc_nodes = [0],
        comp_thread_ctxs = [\<lparr>core_id = 1, node_id = 0\<rparr>, \<lparr>core_id = 2, node_id = 0\<rparr>],
        existing_nodes = [0], io_thread_count = 1\<rparr>
     = Inr [SpawnCoproc 0, ThreadInitDoneWait 0,
      BuildElementGraph \<lparr>core_id = 1, node_id = 0\<rparr>, BuildElementGraph \<lparr>core_id = 2, node_id = 0\<rparr>,
      InitGraphGlobal \<lparr>core_id = 1, node_id = 0\<rparr>,
      InitGraphPerNode \<lparr>core_id = 1, node_id = 0\<rparr>,
      OffloadInitProceed 0 \<lparr>core_id = 1, node_id = 0\<rparr>, OffloadInitDoneWait 0,
      InitGraphPerThread \<lparr>core_id = 1, node_id = 0\<rparr>,
      InitGraphPerThread \<lparr>core_id = 2, node_id = 0\<rparr>,
      LoopStartProceed 0, PrepareIOContext 0, NotifyReady, RemoteLaunch]"
proof -
  let ?c = "\<lparr>coproc_nodes = [0],
        comp_thread_ctxs = [\<lparr>core_id = 1, node_id = 0\<rparr>, \<lparr>core_id = 2, node_id = 0\<rparr>],
        existing_nodes = [0], io_thread_count = 1\<rparr>"
  let ?tr = "[SpawnCoproc 0, ThreadInitDoneWait 0,
      BuildElementGraph \<lparr>core_id = 1, node_id = 0\<rparr>, BuildElementGraph \<lparr>core_id = 2, node_id = 0\<rparr>,
      InitGraphGlobal \<lparr>core_id = 1, node_id = 0\<rparr>,
      InitGraphPerNode \<lparr>core_id = 1, node_id = 0\<rparr>,
      OffloadInitProceed 0 \<lparr>core_id = 1, node_id = 0\<rparr>, OffloadInitDoneWait 0,
      InitGraphPerThread \<lparr>core_id = 1, node_id = 0\<rparr>,
      InitGraphPerThread \<lparr>core_id = 2, node_id = 0\<rparr>,
      LoopStartProceed 0, PrepareIOContext 0, NotifyReady, RemoteLaunch]"
  have b: "bootstrap ?c = Inr ?tr"
    by (simp add: bootstrap_def)
  from bootstrap_phases_in_order [of ?c ?tr] b show ?thesis
    by blast
qed

text \<open>
  The order of the claim (per-thread initialisation, then offload initialisation) fails
  on one coprocessor thread and one computation thread on node 0: the offload
  initialisation is handed out and waited for before the per-thread initialisation.
\<close>

theorem offload_init_precedes_per_thread_init:
  "bootstrap \<lparr>coproc_nodes = [0], comp_thread_ctxs = [\<lparr>core_id = 1, node_id = 0\<rparr>],
        existing_nodes = [0], io_thread_count = 1\<rparr>
     = Inr [SpawnCoproc 0, ThreadInitDoneWait 0,
      BuildElementGraph \<lparr>core_id = 1, node_id = 0\<rparr>,
      InitGraphGlobal \<lparr>core_id = 1, node_id = 0\<rparr>,
      InitGraphPerNode \<lparr>core_id = 1, node_id = 0\<rparr>,
      OffloadInitProceed 0 \<lparr>core_id = 1, node_id = 0\<rparr>, OffloadInitDoneWait 0,
      InitGraphPerThread \<lparr>core_id = 1, node_id = 0\<rparr>,
      LoopStartProceed 0, PrepareIOContext 0, NotifyReady, RemoteLaunch]
   \<and> \<not> sorted (map spec_phase
      [SpawnCoproc 0, ThreadInitDoneWait 0,
      BuildElementGraph \<lparr>core_id = 1, node_id = 0\<rparr>,
      InitGraphGlobal \<lparr>core_id = 1, node_id = 0\<rparr>,
      InitGraphPerNode \<lparr>core_id = 1, node_id = 0\<rparr>,
      OffloadInitProceed 0 \<lparr>core_id = 1, node_id = 0\<rparr>, OffloadInitDoneWait 0,
      InitGraphPerThread \<lparr>core_id = 1, node_id = 0\<rparr>,
      LoopStartProceed 0, PrepareIOContext 0, NotifyReady, RemoteLaunch])"
  by (simp add: bootstrap_def)

subsection \<open>Memory and words\<close>

lemma bindf_simps [simp]: "bindf (Inr x) f = f x" "bindf (Inl e) f = Inl e"
  by (simp_all add: bindf_def)

lemma bit_le64:
  "bit (le64 bs) n \<longleftrightarrow> n < 64 \<and> n div 8 < length bs \<and> bit (bs ! (n div 8)) (n mod 8)"
  unfolding le64_def
  using bit_horner_sum_uint_exp_iff [where 'a = 8, of bs n]
  by (simp add: bit_word_of_int_iff)

lemma bytes64_le64:
  assumes "length bs = 8"
  shows "bytes64 (le64 bs) = bs"
proof (rule nth_equalityI)
  show "length (bytes64 (le64 bs)) = length bs"
    using assms by (simp add: bytes64_def)
next
  fix i assume "i < length (bytes64 (le64 bs))"
  then have i: "i < 8" by (simp add: bytes64_def)
  have "(ucast (drop_bit (8 * i) (le64 bs)) :: byte) = bs ! i"
  proof (rule bit_word_eqI)
    fix n assume "n < LENGTH(8)"
    then have n: "n < 8" by simp
    from i n have lt: "8 * i + n < 64" by simp
    from n have d: "(8 * i + n) div 8 = i" and m: "(8 * i + n) mod 8 = n"
      by simp_all
    show "bit (ucast (drop_bit (8 * i) (le64 bs)) :: byte) n = bit (bs ! i) n"
      using n i lt assms by (simp add: bit_ucast_iff bit_drop_bit_eq bit_le64 d m)
  qed
  with i show "bytes64 (le64 bs) ! i = bs ! i"
    by (simp add: bytes64_def)
qed

lemma map2_same:
  "map2 f (map g xs) (map h xs) = map (\<lambda>x. f (g x) (h x)) xs"
  by (induction xs) auto

lemma bytes64_xor: "bytes64 (a XOR b) = map2 (XOR) (bytes64 a) (bytes64 b)"
  unfolding bytes64_def map2_same
  by (simp only: drop_bit_xor unsigned_xor_eq)

lemma bytes64_ipad: "bytes64 0x3636363636363636 = replicate 8 0x36"
  by code_simp

lemma bytes64_opad: "bytes64 0x5c5c5c5c5c5c5c5c = replicate 8 0x5c"
  by code_simp

lemma mem_read_ok:
  "nat off + n \<le> length obj \<Longrightarrow> 0 \<le> off \<Longrightarrow> mem_read obj off n = Inr (take n (drop (nat off) obj))"
  by (auto simp: mem_read_def in_bounds_def)

lemma mem_write_ok:
  "nat off + length bs \<le> length obj \<Longrightarrow> 0 \<le> off \<Longrightarrow>
     mem_write obj off bs = Inr (take (nat off) obj @ bs @ drop (nat off + length bs) obj)"
  by (auto simp: mem_write_def in_bounds_def)

lemma map2_replicate:
  "length bs = n \<Longrightarrow> map2 f (replicate n p) bs = map (f p) bs"
  by (induction bs arbitrary: n) auto

lemma drop_mid:
  "length A = a \<Longrightarrow> length X = x \<Longrightarrow> a + x \<le> j \<Longrightarrow> drop j (A @ X @ C) = drop (j - a - x) C"
  by simp

lemma xor_step:
  assumes "8 * i + 8 \<le> length key" and "8 * i + 8 \<le> length buf"
    and "bytes64 pad = replicate 8 p"
  shows "bindf (load64 key i) (\<lambda>k. store64 buf i (pad XOR k)) =
           Inr (take (8 * i) buf @ map (\<lambda>b. p XOR b) (take 8 (drop (8 * i) key))
                @ drop (8 * i + 8) buf)"
proof -
  let ?bs = "take 8 (drop (8 * i) key)"
  have len: "length ?bs = 8" using assms(1) by simp
  have off: "nat (int (8 * i)) = 8 * i" by simp
  have ld: "load64 key i = Inr (le64 ?bs)"
    unfolding load64_def using assms(1) by (simp only: mem_read_ok off of_nat_0_le_iff bindf_simps)
  have "bytes64 (pad XOR le64 ?bs) = map (\<lambda>b. p XOR b) ?bs"
    using len by (simp add: bytes64_xor bytes64_le64 assms(3) map2_replicate)
  moreover have "length (bytes64 (pad XOR le64 ?bs)) = 8"
    by (simp add: bytes64_def)
  ultimately show ?thesis
    unfolding ld store64_def bindf_simps using assms(2)
    by (simp only: mem_write_ok off of_nat_0_le_iff)
qed

lemma xor_pad_loop_upt:
  assumes "bytes64 pad = replicate 8 p"
  shows "m \<le> n \<Longrightarrow> 8 * n \<le> length key \<Longrightarrow> 8 * n \<le> length buf \<Longrightarrow>
     xor_pad_loop pad key [m..<n] buf =
       Inr (take (8 * m) buf @ map (\<lambda>b. p XOR b) (take (8 * (n - m)) (drop (8 * m) key))
            @ drop (8 * n) buf)"
proof (induction "n - m" arbitrary: m buf)
  case 0
  then show ?case by simp
next
  case (Suc d)
  then have mn: "m < n" by simp
  let ?X = "map (\<lambda>b. p XOR b) (take 8 (drop (8 * m) key))"
  let ?buf1 = "take (8 * m) buf @ ?X @ drop (8 * m + 8) buf"
  have k: "8 * m + 8 \<le> length key" and b: "8 * m + 8 \<le> length buf"
    using mn Suc.prems by simp_all
  have lx: "length ?X = 8" using k by simp
  have l1: "length ?buf1 = length buf" using b lx by simp
  have step: "bindf (load64 key m) (\<lambda>k. store64 buf m (pad XOR k)) = Inr ?buf1"
    by (rule xor_step [OF k b assms])
  have unf: "xor_pad_loop pad key [m..<n] buf =
      bindf (bindf (load64 key m) (\<lambda>k. store64 buf m (pad XOR k)))
        (\<lambda>buf'. xor_pad_loop pad key [Suc m..<n] buf')"
    using mn by (cases "load64 key m") (simp_all add: upt_conv_Cons)
  have ih: "xor_pad_loop pad key [Suc m..<n] ?buf1 =
       Inr (take (8 * Suc m) ?buf1
            @ map (\<lambda>b. p XOR b) (take (8 * (n - Suc m)) (drop (8 * Suc m) key))
            @ drop (8 * n) ?buf1)"
    using Suc.hyps(2) mn Suc.prems l1 by (intro Suc.hyps(1)) simp_all
  have t: "take (8 * Suc m) ?buf1 = take (8 * m) buf @ ?X"
    using b lx by simp
  have la: "length (take (8 * m) buf) = 8 * m" using b by simp
  have d: "drop (8 * n) ?buf1 = drop (8 * n) buf"
  proof -
    have "drop (8 * n) ?buf1 = drop (8 * n - 8 * m - 8) (drop (8 * m + 8) buf)"
      using mn by (intro drop_mid [OF la lx]) simp
    also have "\<dots> = drop (8 * n) buf"
      using mn by simp
    finally show ?thesis .
  qed
  have x: "?X @ map (\<lambda>b. p XOR b) (take (8 * (n - Suc m)) (drop (8 * Suc m) key))
           = map (\<lambda>b. p XOR b) (take (8 * (n - m)) (drop (8 * m) key))"
  proof -
    have "8 * (n - m) = 8 + 8 * (n - Suc m)" using mn by simp
    then have "take (8 * (n - m)) (drop (8 * m) key)
        = take 8 (drop (8 * m) key) @ take (8 * (n - Suc m)) (drop 8 (drop (8 * m) key))"
      by (simp only: take_add)
    then show ?thesis by (simp add: add.commute)
  qed
  let ?Y = "map (\<lambda>b. p XOR b) (take (8 * (n - Suc m)) (drop (8 * Suc m) key))"
  have "xor_pad_loop pad key [m..<n] buf = xor_pad_loop pad key [Suc m..<n] ?buf1"
    by (simp only: unf step bindf_simps)
  also have "\<dots> = Inr (take (8 * Suc m) ?buf1 @ ?Y @ drop (8 * n) ?buf1)"
    by (rule ih)
  also have "\<dots> = Inr ((take (8 * m) buf @ ?X) @ ?Y @ drop (8 * n) buf)"
    by (simp only: t d)
  also have "\<dots> = Inr (take (8 * m) buf @ (?X @ ?Y) @ drop (8 * n) buf)"
    by (simp only: append_assoc)
  finally show ?case
    by (simp only: x)
qed

lemma xor_pad_loop_64:
  assumes "bytes64 pad = replicate 8 p" and "length key = 64" and "64 \<le> length buf"
  shows "xor_pad_loop pad key [0..<8] buf = Inr (map (\<lambda>b. p XOR b) key @ drop 64 buf)"
  using xor_pad_loop_upt [OF assms(1), of 0 8 key buf] assms(2,3) by simp

subsection \<open>\<open>process\<close>\<close>

lemma size_t_nat: "size_t (int n) = n" if "n < 2 ^ 64"
  using that by (simp add: size_t_def)

lemma header_fields:
  assumes "18 \<le> length d"
  shows "iph_tot_len d = Inr (ntohs (take 2 (drop (sizeof_ether_hdr + 2) d)))"
    and "iph_ihl d = Inr (uint (d ! sizeof_ether_hdr AND 15))"
  using assms
  by (simp_all add: iph_tot_len_def iph_ihl_def sizeof_ether_hdr_def mem_read_ok)

lemma hmac_reference_block:
  "length K = 64 \<Longrightarrow>
     hmac_sha1_reference H K text = H (map (\<lambda>b. 0x5c XOR b) K @ H (map (\<lambda>b. 0x36 XOR b) K @ text))"
  by (simp add: hmac_sha1_reference_def hmac_reference_def Let_def xor.commute)

lemma process_upto_final_write:
  assumes sha: "\<And>m. length (SHA1 m) = SHA_DIGEST_LENGTH"
    and aset: "anno_isset (anno pkt) NBA_ANNO_IPSEC_FLOW_ID"
    and k: "unat (anno_get (anno pkt) NBA_ANNO_IPSEC_FLOW_ID) < length flows"
    and key: "length (hmac_key (flows ! unat (anno_get (anno pkt) NBA_ANNO_IPSEC_FLOW_ID))) = HMAC_KEY_SIZE"
    and L: "payload_len_of (data pkt) = int n"
    and n: "n \<le> 1984"
    and room: "34 + n \<le> length (data pkt)"
  shows "process SHA1 stack flows input_port pkt =
     bindf (mem_write (data pkt) (34 + int n)
              (hmac_sha1_reference SHA1
                 (hmac_key (flows ! unat (anno_get (anno pkt) NBA_ANNO_IPSEC_FLOW_ID)))
                 (take n (drop 34 (data pkt)))))
       (\<lambda>d. Inr \<lparr>retval = 0, pkt_after = pkt\<lparr>data := d\<rparr>, pushed_port = Some 0\<rparr>)"
proof -
  define d where "d = data pkt"
  define K where "K = hmac_key (flows ! unat (anno_get (anno pkt) NBA_ANNO_IPSEC_FLOW_ID))"
  define hb where "hb = map stack [0..<2048]"
  define msg where "msg = take n (drop 34 d)"
  have lK: "length K = 64" using key by (simp add: K_def HMAC_KEY_SIZE_def)
  have lhb: "length hb = 2048" by (simp add: hb_def)
  have lmsg: "length msg = n" using room by (simp add: msg_def d_def)
  have ld: "18 \<le> length d" using room by (simp add: d_def)
  note hf = header_fields [OF ld]
  have plen: "ntohs (take 2 (drop (sizeof_ether_hdr + 2) d)) - uint (d ! sizeof_ether_hdr AND 15) * 4
                - int SHA_DIGEST_LENGTH = int n"
    using L by (simp add: payload_len_of_def d_def)
  have po: "int (sizeof_ether_hdr + sizeof_iphdr) = 34"
    by (simp add: sizeof_ether_hdr_def sizeof_iphdr_def)
  have st1: "size_t (int n) = n"
    using n by (intro size_t_nat) simp
  have st2: "size_t (64 + int n) = 64 + n"
    using n size_t_nat [of "64 + n"] by simp
  have st3: "size_t (64 + int SHA_DIGEST_LENGTH) = 84"
    using size_t_nat [of 84] by (simp add: SHA_DIGEST_LENGTH_def)
  \<comment> \<open>line 170\<close>
  define b1 where "b1 = take 64 hb @ msg @ drop (64 + n) hb"
  have c1: "rte_memcpy hb 64 d 34 n = Inr b1"
    using room n lhb lmsg
    by (simp add: rte_memcpy_def mem_read_ok mem_write_ok d_def msg_def b1_def)
  have lb1: "length b1 = 2048" using lhb lmsg n by (simp add: b1_def)
  \<comment> \<open>lines 171-172\<close>
  define b2 where "b2 = map (\<lambda>b. 0x36 XOR b) K @ msg @ drop (64 + n) hb"
  have c2: "xor_pad_loop 0x3636363636363636 K [0..<8] b1 = Inr b2"
    using xor_pad_loop_64 [OF bytes64_ipad lK, of b1] lb1 lhb
    by (simp add: b1_def b2_def)
  have lb2: "length b2 = 2048" using lhb lmsg lK n by (simp add: b2_def)
  \<comment> \<open>line 173\<close>
  define inner where "inner = map (\<lambda>b. 0x36 XOR b) K @ msg"
  have c3: "mem_read b2 0 (64 + n) = Inr inner"
    using lb2 n lK lmsg by (simp add: mem_read_ok b2_def inner_def)
  \<comment> \<open>line 175\<close>
  define b3 where "b3 = map (\<lambda>b. 0x36 XOR b) K @ SHA1 inner @ drop 84 b2"
  have c4: "rte_memcpy b2 64 (SHA1 inner) 0 SHA_DIGEST_LENGTH = Inr b3"
    using lb2 lK sha [of inner]
    by (simp add: rte_memcpy_def mem_read_ok mem_write_ok b3_def SHA_DIGEST_LENGTH_def b2_def)
  have lb3: "length b3 = 2048"
    using lb2 lK sha [of inner] by (simp add: b3_def SHA_DIGEST_LENGTH_def)
  \<comment> \<open>lines 176-178\<close>
  define b4 where "b4 = map (\<lambda>b. 0x5c XOR b) K @ SHA1 inner @ drop 84 b2"
  have c5: "xor_pad_loop 0x5c5c5c5c5c5c5c5c K [0..<8] b3 = Inr b4"
    using xor_pad_loop_64 [OF bytes64_opad lK, of b3] lb3 lK
    by (simp add: b3_def b4_def)
  \<comment> \<open>line 179\<close>
  define outer where "outer = map (\<lambda>b. 0x5c XOR b) K @ SHA1 inner"
  have c6: "mem_read b4 0 84 = Inr outer"
    using lb2 lK sha [of inner]
    by (simp add: mem_read_ok b4_def outer_def SHA_DIGEST_LENGTH_def)
  have ref: "hmac_sha1_reference SHA1 K msg = SHA1 outer"
    by (simp add: hmac_reference_block [OF lK] outer_def inner_def)
  have "process SHA1 stack flows input_port pkt =
     bindf (mem_write d (34 + int n) (SHA1 outer))
       (\<lambda>d. Inr \<lparr>retval = 0, pkt_after = pkt\<lparr>data := d\<rparr>, pushed_port = Some 0\<rparr>)"
    unfolding process_def Let_def
    unfolding d_def [symmetric] K_def [symmetric] hb_def [symmetric]
    using aset k
    by (simp only: hf bindf_simps plen po st1 st2 st3 c1 c2 c3 c4 c5 c6 if_True if_False
          not_not simp_thms)
  then show ?thesis
    unfolding ref [symmetric] msg_def d_def K_def .
qed

lemma hmac_reference_length:
  "(\<And>m. length (H m) = SHA_DIGEST_LENGTH) \<Longrightarrow> length (hmac_sha1_reference H K msg) = 20"
  by (simp add: hmac_sha1_reference_def hmac_reference_def Let_def SHA_DIGEST_LENGTH_def)

lemma process_authenticates:
  assumes sha: "\<And>m. length (SHA1 m) = SHA_DIGEST_LENGTH"
    and aset: "anno_isset (anno pkt) NBA_ANNO_IPSEC_FLOW_ID"
    and k: "unat (anno_get (anno pkt) NBA_ANNO_IPSEC_FLOW_ID) < length flows"
    and key: "length (hmac_key (flows ! unat (anno_get (anno pkt) NBA_ANNO_IPSEC_FLOW_ID))) = HMAC_KEY_SIZE"
    and L: "payload_len_of (data pkt) = int n"
    and n: "n \<le> 1984"
    and room: "34 + n + 20 \<le> length (data pkt)"
  shows "process SHA1 stack flows input_port pkt =
     Inr \<lparr>retval = 0,
          pkt_after = pkt\<lparr>data := take (34 + n) (data pkt)
             @ hmac_sha1_reference SHA1
                 (hmac_key (flows ! unat (anno_get (anno pkt) NBA_ANNO_IPSEC_FLOW_ID)))
                 (take n (drop 34 (data pkt)))
             @ drop (34 + n + 20) (data pkt)\<rparr>,
          pushed_port = Some 0\<rparr>"
proof -
  from room have r: "34 + n \<le> length (data pkt)" by simp
  have off: "nat (34 + int n) = 34 + n" by simp
  show ?thesis
    unfolding process_upto_final_write [OF sha aset k key L n r]
    using room hmac_reference_length [of SHA1, OF sha]
    by (simp add: mem_write_ok off)
qed

lemma process_no_room_for_digest:
  assumes sha: "\<And>m. length (SHA1 m) = SHA_DIGEST_LENGTH"
    and aset: "anno_isset (anno pkt) NBA_ANNO_IPSEC_FLOW_ID"
    and k: "unat (anno_get (anno pkt) NBA_ANNO_IPSEC_FLOW_ID) < length flows"
    and key: "length (hmac_key (flows ! unat (anno_get (anno pkt) NBA_ANNO_IPSEC_FLOW_ID))) = HMAC_KEY_SIZE"
    and L: "payload_len_of (data pkt) = int n"
    and n: "n \<le> 1984"
    and room: "34 + n \<le> length (data pkt)" "length (data pkt) < 34 + n + 20"
  shows "process SHA1 stack flows input_port pkt = Inl OutOfBounds"
  unfolding process_upto_final_write [OF sha aset k key L n room(1)]
  using room(2) hmac_reference_length [of SHA1, OF sha]
  by (simp add: mem_write_def in_bounds_def)

lemma memcpy_into_hmac_buf_faults:
  assumes "length hb = 2048" and "1984 < n"
  shows "rte_memcpy hb 64 d 34 n = Inl OutOfBounds"
proof (cases "mem_read d 34 n")
  case (Inl e)
  then show ?thesis by (cases e) (simp add: rte_memcpy_def)
next
  case (Inr bs)
  then have "length bs = n"
    by (auto simp: mem_read_def in_bounds_def split: if_splits)
  with assms Inr show ?thesis
    by (simp add: rte_memcpy_def mem_write_def in_bounds_def)
qed

lemma memcpy_from_packet_faults:
  assumes "length d < 34 + n"
  shows "rte_memcpy hb 64 d 34 n = Inl OutOfBounds"
  using assms by (simp add: rte_memcpy_def mem_read_def in_bounds_def)

lemma process_memcpy_faults:
  assumes ld: "18 \<le> length (data pkt)"
    and aset: "anno_isset (anno pkt) NBA_ANNO_IPSEC_FLOW_ID"
    and k: "unat (anno_get (anno pkt) NBA_ANNO_IPSEC_FLOW_ID) < length flows"
    and bad: "1984 < size_t (payload_len_of (data pkt))
              \<or> length (data pkt) < 34 + size_t (payload_len_of (data pkt))"
  shows "process SHA1 stack flows input_port pkt = Inl OutOfBounds"
proof -
  define d where "d = data pkt"
  define hb where "hb = map stack [0..<2048]"
  have lhb: "length hb = 2048" by (simp add: hb_def)
  note hf = header_fields [OF ld [folded d_def]]
  have plen: "ntohs (take 2 (drop (sizeof_ether_hdr + 2) d)) - uint (d ! sizeof_ether_hdr AND 15) * 4
                - int SHA_DIGEST_LENGTH = payload_len_of d"
    by (simp add: payload_len_of_def)
  have po: "int (sizeof_ether_hdr + sizeof_iphdr) = 34"
    by (simp add: sizeof_ether_hdr_def sizeof_iphdr_def)
  have c1: "rte_memcpy hb 64 d 34 (size_t (payload_len_of d)) = Inl OutOfBounds"
    using bad memcpy_into_hmac_buf_faults [OF lhb] memcpy_from_packet_faults
    unfolding d_def by blast
  show ?thesis
    unfolding process_def Let_def
    unfolding d_def [symmetric] hb_def [symmetric]
    using aset k
    by (simp only: hf bindf_simps plen po c1 if_True if_False not_not simp_thms)
qed

lemma process_bad_flow_id:
  assumes "18 \<le> length (data pkt)"
    and "anno_isset (anno pkt) NBA_ANNO_IPSEC_FLOW_ID"
    and "\<not> unat (anno_get (anno pkt) NBA_ANNO_IPSEC_FLOW_ID) < length flows"
  shows "process SHA1 stack flows input_port pkt = Inl OutOfBounds"
  using assms header_fields [OF assms(1)]
  by (simp add: process_def Let_def)

lemma process_short_buffer:
  assumes "length (data pkt) < 18"
  shows "process SHA1 stack flows input_port pkt = Inl OutOfBounds"
  using assms
  by (simp add: process_def iph_tot_len_def mem_read_def in_bounds_def sizeof_ether_hdr_def)

lemma process_not_annotated:
  assumes "18 \<le> length (data pkt)"
    and "\<not> anno_isset (anno pkt) NBA_ANNO_IPSEC_FLOW_ID"
  shows "process SHA1 stack flows input_port pkt =
           Inr \<lparr>retval = 0, pkt_after = pkt\<lparr>killed := True\<rparr>, pushed_port = None\<rparr>"
  using assms header_fields [OF assms(1)]
  by (simp add: process_def Let_def)

lemma payload_len_range: "- 80 \<le> payload_len_of d \<and> payload_len_of d < 65536"
proof -
  define t0 where "t0 = uint (take 2 (drop (sizeof_ether_hdr + 2) d) ! 0)"
  define t1 where "t1 = uint (take 2 (drop (sizeof_ether_hdr + 2) d) ! 1)"
  define i where "i = uint (d ! sizeof_ether_hdr AND 15)"
  have a: "0 \<le> t0" "t0 < 256" "0 \<le> t1" "t1 < 256"
    using uint_lt2p [of "take 2 (drop (sizeof_ether_hdr + 2) d) ! 0"]
      uint_lt2p [of "take 2 (drop (sizeof_ether_hdr + 2) d) ! 1"]
    by (simp_all add: t0_def t1_def)
  have "d ! sizeof_ether_hdr AND 15 \<le> 15"
    by (rule word_and_le1)
  then have b: "0 \<le> i" "i \<le> 15"
    by (simp_all add: i_def word_le_def)
  have "payload_len_of d = t0 * 256 + t1 - i * 4 - 20"
    by (simp add: payload_len_of_def ntohs_def SHA_DIGEST_LENGTH_def t0_def t1_def i_def)
  with a b show ?thesis by linarith
qed

lemma stand_in_digest_length: "length (stand_in_digest m) = SHA_DIGEST_LENGTH"
  by (simp add: stand_in_digest_def)

lemma sample_data_facts:
  "length sample_data = 62" "payload_len_of sample_data = 8"
  by code_simp+

lemma header_only_data_facts:
  "length header_only_data = 64" "payload_len_of header_only_data = - 20"
  by code_simp+

lemma abcd_key_length: "length abcd_key = 64"
  by code_simp

lemma tunnel_key_length: "length (hmac_key (tunnel_entry i)) = HMAC_KEY_SIZE"
  by (simp add: tunnel_entry_def abcd_key_length HMAC_KEY_SIZE_def)

lemma flow_anno_simps:
  "anno_isset (flow_anno k) NBA_ANNO_IPSEC_FLOW_ID"
  "anno_get (flow_anno k) NBA_ANNO_IPSEC_FLOW_ID = k"
  "\<not> anno_isset no_anno NBA_ANNO_IPSEC_FLOW_ID"
  by (simp_all add: flow_anno_def no_anno_def anno_isset_def anno_get_def)

lemma process_returns_iff:
  assumes sha: "\<And>m. length (SHA1 m) = SHA_DIGEST_LENGTH"
    and keys: "\<forall>x \<in> set flows. length (hmac_key x) = HMAC_KEY_SIZE"
  shows "(\<exists>r. process SHA1 stack flows input_port pkt = Inr r) \<longleftrightarrow>
     18 \<le> length (data pkt) \<and>
     (anno_isset (anno pkt) NBA_ANNO_IPSEC_FLOW_ID \<longrightarrow>
        unat (anno_get (anno pkt) NBA_ANNO_IPSEC_FLOW_ID) < length flows
        \<and> 0 \<le> payload_len_of (data pkt) \<and> payload_len_of (data pkt) \<le> 1984
        \<and> 34 + payload_len_of (data pkt) + 20 \<le> int (length (data pkt)))"
  (is "?ok \<longleftrightarrow> ?cond")
proof
  assume c: ?cond
  show ?ok
  proof (cases "anno_isset (anno pkt) NBA_ANNO_IPSEC_FLOW_ID")
    case False
    with c process_not_annotated [of pkt SHA1 stack flows input_port] show ?thesis
      by simp
  next
    case True
    define n where "n = nat (payload_len_of (data pkt))"
    from c True have k: "unat (anno_get (anno pkt) NBA_ANNO_IPSEC_FLOW_ID) < length flows"
      and L: "payload_len_of (data pkt) = int n"
      by (simp_all add: n_def)
    from c True have n: "n \<le> 1984" and room: "34 + n + 20 \<le> length (data pkt)"
      unfolding n_def by linarith+
    from k keys have
      "length (hmac_key (flows ! unat (anno_get (anno pkt) NBA_ANNO_IPSEC_FLOW_ID))) = HMAC_KEY_SIZE"
      by simp
    from process_authenticates [OF sha True k this L n room] show ?thesis
      by simp
  qed
next
  assume ok: ?ok
  show ?cond
  proof (rule ccontr)
    assume nc: "\<not> ?cond"
    have "process SHA1 stack flows input_port pkt = Inl OutOfBounds"
    proof (cases "length (data pkt) < 18")
      case True
      then show ?thesis by (rule process_short_buffer)
    next
      case False
      then have ld: "18 \<le> length (data pkt)" by simp
      with nc have aset: "anno_isset (anno pkt) NBA_ANNO_IPSEC_FLOW_ID" by blast
      show ?thesis
      proof (cases "unat (anno_get (anno pkt) NBA_ANNO_IPSEC_FLOW_ID) < length flows")
        case False
        from process_bad_flow_id [OF ld aset False] show ?thesis .
      next
        case k: True
        with keys have key:
          "length (hmac_key (flows ! unat (anno_get (anno pkt) NBA_ANNO_IPSEC_FLOW_ID))) = HMAC_KEY_SIZE"
          by simp
        define L where "L = payload_len_of (data pkt)"
        have range: "- 80 \<le> L" "L < 65536"
          using payload_len_range [of "data pkt"] by (simp_all add: L_def)
        from nc ld aset k have bad:
          "\<not> (0 \<le> L \<and> L \<le> 1984 \<and> 34 + L + 20 \<le> int (length (data pkt)))"
          by (simp add: L_def)
        show ?thesis
        proof (cases "L < 0")
          case True
          with range have "(L + 2 ^ 64) mod 2 ^ 64 = L + 2 ^ 64"
            by (intro mod_pos_pos_trivial) simp_all
          then have "L mod 2 ^ 64 = L + 2 ^ 64"
            by simp
          with range have "1984 < size_t L"
            by (simp add: size_t_def)
          with process_memcpy_faults [OF ld aset k] show ?thesis
            by (simp add: L_def)
        next
          case False
          with range have st: "size_t L = nat L"
            by (simp add: size_t_def)
          show ?thesis
          proof (cases "1984 < L \<or> int (length (data pkt)) < 34 + L")
            case True
            with False st have "1984 < size_t L \<or> length (data pkt) < 34 + size_t L"
              by linarith
            with process_memcpy_faults [OF ld aset k] show ?thesis
              by (simp add: L_def)
          next
            case fits: False
            with False bad have "payload_len_of (data pkt) = int (nat L)" "nat L \<le> 1984"
              "34 + nat L \<le> length (data pkt)" "length (data pkt) < 34 + nat L + 20"
              unfolding L_def by linarith+
            from process_no_room_for_digest [OF sha aset k key this] show ?thesis .
          qed
        qed
      qed
    qed
    with ok show False by simp
  qed
qed

lemma short_total_length_data_facts:
  "length short_total_length_data = 64" "payload_len_of short_total_length_data = - 10"
  by code_simp+

text \<open>
  C2 (as amended).  Take a packet whose \<open>IPSEC_FLOW_ID\<close> annotation is set to \<open>k\<close>, and
  keys of 64 bytes.  If \<open>k\<close> is a tunnel of the key array and the authenticated region
  of \<open>payload_len\<close> bytes (IP total length minus IP header length minus 20, not negative
  and at most 1984) lies, with the 20 bytes after it, inside the packet buffer, then
  \<open>process\<close> returns 0, leaves the packet as it was but for the 20 bytes at
  \<open>payload_out + payload_len\<close> (offset \<open>34 + payload_len\<close>), which now hold the reference
  HMAC-SHA1 of the region under the key of tunnel \<open>k\<close>, and pushes the packet to output
  port 0, whatever the stack buffer held.  If one of these conditions fails, \<open>process\<close>
  leaves its objects: no digest is written and nothing is pushed.
\<close>

theorem process_writes_hmac_and_pushes:
  assumes "\<And>m. length (SHA1 m) = SHA_DIGEST_LENGTH"
    and "\<forall>x \<in> set flows. length (hmac_key x) = HMAC_KEY_SIZE"
    and "anno_isset (anno pkt) NBA_ANNO_IPSEC_FLOW_ID"
    and "anno_get (anno pkt) NBA_ANNO_IPSEC_FLOW_ID = k"
  shows "(unat k < length flows \<and> payload_len_of (data pkt) = int payload_len
          \<and> payload_len \<le> 1984 \<and> 34 + payload_len + 20 \<le> length (data pkt) \<longrightarrow>
            process SHA1 stack flows input_port pkt =
              Inr \<lparr>retval = 0,
                   pkt_after = pkt\<lparr>data := take (34 + payload_len) (data pkt)
                      @ hmac_sha1_reference SHA1 (hmac_key (flows ! unat k))
                          (take payload_len (drop 34 (data pkt)))
                      @ drop (34 + payload_len + 20) (data pkt)\<rparr>,
                   pushed_port = Some 0\<rparr>
            \<and> length (hmac_sha1_reference SHA1 (hmac_key (flows ! unat k))
                        (take payload_len (drop 34 (data pkt)))) = 20)
     \<and> (\<not> (unat k < length flows
             \<and> 0 \<le> payload_len_of (data pkt) \<and> payload_len_of (data pkt) \<le> 1984
             \<and> 34 + payload_len_of (data pkt) + 20 \<le> int (length (data pkt))) \<longrightarrow>
            process SHA1 stack flows input_port pkt = Inl OutOfBounds)"
proof (intro conjI impI)
  assume h: "unat k < length flows \<and> payload_len_of (data pkt) = int payload_len
          \<and> payload_len \<le> 1984 \<and> 34 + payload_len + 20 \<le> length (data pkt)"
  with assms(2) have "length (hmac_key (flows ! unat k)) = HMAC_KEY_SIZE"
    by simp
  with h assms process_authenticates [of SHA1 pkt flows payload_len stack input_port]
  show "process SHA1 stack flows input_port pkt =
              Inr \<lparr>retval = 0,
                   pkt_after = pkt\<lparr>data := take (34 + payload_len) (data pkt)
                      @ hmac_sha1_reference SHA1 (hmac_key (flows ! unat k))
                          (take payload_len (drop 34 (data pkt)))
                      @ drop (34 + payload_len + 20) (data pkt)\<rparr>,
                   pushed_port = Some 0\<rparr>"
    by simp
  from assms(1) show "length (hmac_sha1_reference SHA1 (hmac_key (flows ! unat k))
                        (take payload_len (drop 34 (data pkt)))) = 20"
    by (rule hmac_reference_length)
next
  assume "\<not> (unat k < length flows
             \<and> 0 \<le> payload_len_of (data pkt) \<and> payload_len_of (data pkt) \<le> 1984
             \<and> 34 + payload_len_of (data pkt) + 20 \<le> int (length (data pkt)))"
  with assms process_returns_iff [of SHA1 flows stack input_port pkt]
  have "\<not> (\<exists>r. process SHA1 stack flows input_port pkt = Inr r)"
    by simp
  then show "process SHA1 stack flows input_port pkt = Inl OutOfBounds"
    by (cases "process SHA1 stack flows input_port pkt") (auto intro: fault.exhaust)
qed

theorem process_writes_hmac_and_pushes_witness:
  "process stand_in_digest (\<lambda>i. 0) (map tunnel_entry [0..<1024]) 0
     \<lparr>data = sample_data, anno = flow_anno 3, killed = False\<rparr> =
     Inr \<lparr>retval = 0,
          pkt_after = \<lparr>data = take 42 sample_data
             @ hmac_sha1_reference stand_in_digest (hmac_key (tunnel_entry 3))
                 (take 8 (drop 34 sample_data))
             @ drop 62 sample_data, anno = flow_anno 3, killed = False\<rparr>,
          pushed_port = Some 0\<rparr>
   \<and> length (hmac_sha1_reference stand_in_digest (hmac_key (tunnel_entry 3))
                 (take 8 (drop 34 sample_data))) = 20"
  using process_writes_hmac_and_pushes [of stand_in_digest "map tunnel_entry [0..<1024]"
      "\<lparr>data = sample_data, anno = flow_anno 3, killed = False\<rparr>" 3 8 "\<lambda>i. 0" 0]
  by (simp add: stand_in_digest_length flow_anno_simps sample_data_facts tunnel_key_length
      del: upt_rec_numeral)

text \<open>
  The claim as stated, for every packet whose annotation is set, fails on a packet that
  the program can receive: the annotation is set to tunnel 3 of the 1024, and the IP
  header gives the total length 30 and the header length 20, so that the authenticated
  length is \<open>-10\<close>.  \<open>process\<close> asks \<open>rte_memcpy\<close> for \<open>2 ^ 64 - 10\<close> bytes; no digest is
  written and the packet is not pushed.
\<close>

theorem process_faults_on_short_total_length:
  "anno_isset (flow_anno 3) NBA_ANNO_IPSEC_FLOW_ID
   \<and> anno_get (flow_anno 3) NBA_ANNO_IPSEC_FLOW_ID = 3
   \<and> unat (3 :: 64 word) < length (map tunnel_entry [0..<1024])
   \<and> process stand_in_digest (\<lambda>i. 0) (map tunnel_entry [0..<1024]) 0
       \<lparr>data = short_total_length_data, anno = flow_anno 3, killed = False\<rparr> = Inl OutOfBounds"
proof -
  have "size_t (- 10) = 18446744073709551606"
    by (simp add: size_t_def)
  then show ?thesis
    using process_memcpy_faults
      [of "\<lparr>data = short_total_length_data, anno = flow_anno 3, killed = False\<rparr>"
      "map tunnel_entry [0..<1024]" stand_in_digest "\<lambda>i. 0" 0]
    by (simp add: flow_anno_simps short_total_length_data_facts del: upt_rec_numeral)
qed

text \<open>
  C3 (as amended).  With keys of 64 bytes, \<open>process\<close> stays inside the objects it touches
  exactly when the packet buffer holds the header fields it reads and, if the
  annotation is set, its value is below the length of the key array (\<open>num_tunnels\<close>),
  the authenticated length is not negative and at most 1984, and the packet buffer holds
  the 34 bytes of headers, the authenticated region and the 20 bytes of the digest.
  Nothing in \<open>process\<close> checks any of these.
\<close>

theorem process_in_bounds_iff:
  assumes sha: "\<And>m. length (SHA1 m) = SHA_DIGEST_LENGTH"
    and keys: "\<forall>x \<in> set flows. length (hmac_key x) = HMAC_KEY_SIZE"
  shows "(\<exists>r. process SHA1 stack flows input_port pkt = Inr r) \<longleftrightarrow>
     18 \<le> length (data pkt) \<and>
     (anno_isset (anno pkt) NBA_ANNO_IPSEC_FLOW_ID \<longrightarrow>
        unat (anno_get (anno pkt) NBA_ANNO_IPSEC_FLOW_ID) < length flows
        \<and> 0 \<le> payload_len_of (data pkt) \<and> payload_len_of (data pkt) \<le> 1984
        \<and> 34 + payload_len_of (data pkt) + 20 \<le> int (length (data pkt)))"
  using sha keys by (rule process_returns_iff)

theorem process_in_bounds_iff_witness:
  "\<exists>r. process stand_in_digest (\<lambda>i. 0) (map tunnel_entry [0..<1024]) 0
     \<lparr>data = sample_data, anno = flow_anno 3, killed = False\<rparr> = Inr r"
  using process_in_bounds_iff [of stand_in_digest "map tunnel_entry [0..<1024]" "\<lambda>i. 0" 0
      "\<lparr>data = sample_data, anno = flow_anno 3, killed = False\<rparr>"]
  by (simp add: stand_in_digest_length flow_anno_simps sample_data_facts tunnel_key_length
      del: upt_rec_numeral)

text \<open>
  The two preconditions of the claim alone are not enough: a packet whose IP header gives
  total length 20 and header length 20 has the authenticated length \<open>-20\<close>, which is at
  most 1984, and flow 0 is a tunnel of the array of 1024; \<open>rte_memcpy\<close> is then asked for
  \<open>2 ^ 64 - 20\<close> bytes.
\<close>

theorem negative_payload_len_out_of_bounds:
  "unat (anno_get (flow_anno 0) NBA_ANNO_IPSEC_FLOW_ID) < length (map tunnel_entry [0..<1024])
   \<and> payload_len_of header_only_data \<le> 1984
   \<and> process stand_in_digest (\<lambda>i. 0) (map tunnel_entry [0..<1024]) 0
       \<lparr>data = header_only_data, anno = flow_anno 0, killed = False\<rparr> = Inl OutOfBounds"
proof -
  have "size_t (- 20) = 18446744073709551596"
    by (simp add: size_t_def)
  then show ?thesis
    using process_memcpy_faults [of "\<lparr>data = header_only_data, anno = flow_anno 0, killed = False\<rparr>"
      "map tunnel_entry [0..<1024]" stand_in_digest "\<lambda>i. 0" 0]
    by (simp add: flow_anno_simps header_only_data_facts del: upt_rec_numeral)
qed

text \<open>
  C4.  For a packet whose \<open>IPSEC_FLOW_ID\<close> annotation is not set (and whose buffer holds
  the IP header fields that line 160 reads before the test), \<open>process\<close> marks the packet
  killed, changes nothing else, pushes it to no output port and returns 0, so that its
  caller goes on with the next packet.
\<close>

theorem process_kills_unannotated:
  assumes "\<not> anno_isset (anno pkt) NBA_ANNO_IPSEC_FLOW_ID"
    and "18 \<le> length (data pkt)"
  shows "process SHA1 stack flows input_port pkt =
           Inr \<lparr>retval = 0, pkt_after = pkt\<lparr>killed := True\<rparr>, pushed_port = None\<rparr>"
  using assms by (intro process_not_annotated)

theorem process_kills_unannotated_witness:
  "process stand_in_digest (\<lambda>i. 0) (map tunnel_entry [0..<1024]) 0
     \<lparr>data = sample_data, anno = no_anno, killed = False\<rparr> =
   Inr \<lparr>retval = 0, pkt_after = \<lparr>data = sample_data, anno = no_anno, killed = True\<rparr>,
        pushed_port = None\<rparr>"
  using process_kills_unannotated [of "\<lparr>data = sample_data, anno = no_anno, killed = False\<rparr>"
      stand_in_digest "\<lambda>i. 0" "map tunnel_entry [0..<1024]" 0]
  by (simp add: flow_anno_simps sample_data_facts)

subsection \<open>Initialisation of the key array\<close>

lemma initialize_array: "hmac_sa_entry_array (initialize ctx w) = None"
  by (simp add: initialize_def Let_def)

lemma initialize_frees:
  "free_calls (initialize ctx w) = free_calls w + (if hmac_sa_entry_array w = None then 0 else 1)"
  by (simp add: initialize_def Let_def)

lemma initialize_twice:
  "free_calls (initialize ctx' (initialize ctx w)) = free_calls (initialize ctx w)"
  by (simp add: initialize_frees initialize_array)

lemma initialize_per_node_asserts:
  "(\<exists>w'. initialize_per_node e n w = Inr w') \<longleftrightarrow> hmac_sa_entry_array w \<noteq> None"
  by (auto simp: initialize_per_node_def Let_def split: option.splits)

lemma initialize_per_node_array:
  "initialize_per_node e n w = Inr w' \<Longrightarrow> hmac_sa_entry_array w' = hmac_sa_entry_array w"
  by (auto simp: initialize_per_node_def Let_def split: option.splits)

lemma run_inits_null:
  assumes "hmac_sa_entry_array w = None" and "list_all (\<lambda>x. \<not> is_global_init x) evs"
  shows "(\<exists>w'. run_inits e evs w = Inr w') \<longleftrightarrow> list_all (\<lambda>x. \<not> is_per_node_init x) evs"
  using assms
proof (induction evs arbitrary: w)
  case Nil
  then show ?case by simp
next
  case (Cons ev evs)
  show ?case
  proof (cases ev)
    case (InitGraphPerNode ctx)
    with Cons.prems initialize_per_node_asserts [of e "node_id ctx" w] show ?thesis
      by (auto split: sum.splits)
  next
    case (InitGraphPerThread ctx)
    with Cons.prems Cons.IH [of "initialize ctx w"] show ?thesis
      by (simp add: initialize_array)
  qed (use Cons in auto)
qed

lemma run_inits_allocated:
  assumes "hmac_sa_entry_array w \<noteq> None" and "list_all (\<lambda>x. \<not> is_global_init x) evs"
  shows "(\<exists>w'. run_inits e evs w = Inr w') \<longleftrightarrow> per_node_inits_first evs"
  using assms
proof (induction evs arbitrary: w)
  case Nil
  then show ?case by simp
next
  case (Cons ev evs)
  show ?case
  proof (cases ev)
    case (InitGraphPerNode ctx)
    from Cons.prems(1) initialize_per_node_asserts [of e "node_id ctx" w]
    obtain w1 where w1: "initialize_per_node e (node_id ctx) w = Inr w1"
      by blast
    from initialize_per_node_array [OF w1] Cons.prems(1)
    have "hmac_sa_entry_array w1 \<noteq> None" by simp
    from Cons.IH [OF this] Cons.prems(2) w1 InitGraphPerNode show ?thesis
      by simp
  next
    case (InitGraphPerThread ctx)
    with Cons.prems run_inits_null [of "initialize ctx w" evs e] show ?thesis
      by (simp add: initialize_array)
  qed (use Cons in auto)
qed

lemma sorted_phase_per_node_first:
  "sorted (map phase evs) \<Longrightarrow> per_node_inits_first evs"
proof (induction evs)
  case Nil
  then show ?case by simp
next
  case (Cons ev evs)
  show ?case
  proof (cases "is_per_thread_init ev")
    case True
    then have "phase ev = 5" by (cases ev) auto
    with Cons.prems have "\<forall>x \<in> set evs. 5 \<le> phase x" by auto
    moreover have "is_per_node_init x \<Longrightarrow> phase x = 3" for x by (cases x) auto
    ultimately have "list_all (\<lambda>x. \<not> is_per_node_init x) evs"
      by (fastforce simp: list_all_iff)
    with True show ?thesis by simp
  next
    case False
    with Cons show ?thesis by simp
  qed
qed

lemma tunnel_pair_inj:
  assumes "i + 1 < 2 ^ 24" and "j + 1 < 2 ^ 24" and "tunnel_pair i = tunnel_pair j"
  shows "i = j"
proof -
  let ?a = "word_of_nat (i + 1) :: 32 word" and ?b = "word_of_nat (j + 1) :: 32 word"
  from assms(3) have "(0x0a000000 :: 32 word) OR ?a = 0x0a000000 OR ?b"
    by (simp add: tunnel_pair_def)
  then have "take_bit 24 ((0x0a000000 :: 32 word) OR ?a) = take_bit 24 (0x0a000000 OR ?b)"
    by simp
  moreover have "take_bit 24 (0x0a000000 :: 32 word) = 0"
    by code_simp
  ultimately have "take_bit 24 ?a = take_bit 24 ?b"
    by (simp add: take_bit_or)
  then have "unat (take_bit 24 ?a) = unat (take_bit 24 ?b)"
    by simp
  moreover have "unat (take_bit 24 (word_of_nat (x + 1) :: 32 word)) = x + 1"
    if "x + 1 < 2 ^ 24" for x
  proof -
    from that have "x + 1 < 2 ^ 32" by simp
    then have "unat (word_of_nat (x + 1) :: 32 word) = x + 1"
      by (simp only: unat_of_nat) simp
    with that show ?thesis
      by (simp only: unsigned_take_bit_eq take_bit_nat_eq_self)
  qed
  note this [OF assms(1)] this [OF assms(2)]
  ultimately show ?thesis by simp
qed

lemma initialize_global_loop_ok:
  assumes "n < 2 ^ 24"
  shows "m \<le> n \<Longrightarrow> hmac_sa_table w = map (\<lambda>i. (tunnel_pair i, int i)) [0..<m] \<Longrightarrow>
     hmac_sa_entry_array w = Some (map tunnel_entry [0..<m]) \<Longrightarrow>
     initialize_global_loop [m..<n] w =
       Inr (w\<lparr>hmac_sa_table := map (\<lambda>i. (tunnel_pair i, int i)) [0..<n],
              hmac_sa_entry_array := Some (map tunnel_entry [0..<n])\<rparr>)"
proof (induction "n - m" arbitrary: m w)
  case 0
  then show ?case by simp
next
  case (Suc d)
  then have mn: "m < n" by simp
  have fresh: "tunnel_pair m \<notin> fst ` set (hmac_sa_table w)"
  proof
    assume "tunnel_pair m \<in> fst ` set (hmac_sa_table w)"
    then obtain i where i: "i < m" and eq: "tunnel_pair m = tunnel_pair i"
      unfolding Suc.prems(2) by auto
    from tunnel_pair_inj [OF _ _ eq] i mn assms show False by simp
  qed
  let ?w1 = "w\<lparr>hmac_sa_table := hmac_sa_table w @ [(tunnel_pair m, int m)],
               hmac_sa_entry_array := map_option
                 (\<lambda>a. a @ [\<lparr>hmac_key = take HMAC_KEY_SIZE abcd_key, entry_idx = int m\<rparr>])
                 (hmac_sa_entry_array w)\<rparr>"
  have t1: "hmac_sa_table ?w1 = map (\<lambda>i. (tunnel_pair i, int i)) [0..<Suc m]"
    by (simp add: Suc.prems(2))
  have a1: "hmac_sa_entry_array ?w1 = Some (map tunnel_entry [0..<Suc m])"
    by (simp add: Suc.prems(3) tunnel_entry_def)
  have "initialize_global_loop [m..<n] w = initialize_global_loop [Suc m..<n] ?w1"
    using mn fresh by (simp add: upt_conv_Cons)
  also have "\<dots> = Inr (?w1\<lparr>hmac_sa_table := map (\<lambda>i. (tunnel_pair i, int i)) [0..<n],
                             hmac_sa_entry_array := Some (map tunnel_entry [0..<n])\<rparr>)"
    using Suc.hyps(2) mn by (intro Suc.hyps(1) t1 a1) simp_all
  finally show ?case by simp
qed

lemma initialize_global_ok:
  assumes "0 < num_tunnels e" and "num_tunnels e < 2 ^ 24" and "hmac_sa_table w = []"
  shows "initialize_global e w =
           Inr (w\<lparr>hmac_sa_table := map (\<lambda>i. (tunnel_pair i, int i)) [0..<num_tunnels e],
                  hmac_sa_entry_array := Some (map tunnel_entry [0..<num_tunnels e])\<rparr>)"
  using assms(1) initialize_global_loop_ok [OF assms(2), of 0 "w\<lparr>hmac_sa_entry_array := Some []\<rparr>"]
    assms(3)
  by (simp add: initialize_global_def)

lemma run_inits_append:
  "run_inits e (xs @ ys) w =
     (case run_inits e xs w of Inl a \<Rightarrow> Inl a | Inr w' \<Rightarrow> run_inits e ys w')"
  by (induction xs arbitrary: w) (auto split: sum.splits)

lemma run_inits_idle:
  "\<forall>ev \<in> set evs. phase ev < 2 \<Longrightarrow> run_inits e evs w = Inr w"
proof (induction evs)
  case Nil
  then show ?case by simp
next
  case (Cons ev evs)
  then show ?case by (cases ev) auto
qed

lemma bootstrap_inits_succeed:
  assumes b: "bootstrap c = Inr tr"
    and nt: "0 < num_tunnels e" "num_tunnels e < 2 ^ 24"
  shows "per_node_inits_first tr" and "\<exists>w'. run_inits e tr world0 = Inr w'"
proof -
  from b show "per_node_inits_first tr"
    by (intro sorted_phase_per_node_first bootstrap_sorted)
  from b obtain ctx0 rest offl starts where
    p4: "\<forall>e \<in> set offl. phase e = 4" and
    p6: "\<forall>e \<in> set starts. phase e = 6" and
    tr: "tr = spawn_coprocs (coproc_nodes c) @ map BuildElementGraph (comp_thread_ctxs c)
          @ [InitGraphGlobal ctx0]
          @ per_node_outer (existing_nodes c) (comp_thread_ctxs c) [] @ offl
          @ map InitGraphPerThread (comp_thread_ctxs c) @ starts
          @ map PrepareIOContext [0..<io_thread_count c] @ [NotifyReady, RemoteLaunch]"
    by (rule bootstrap_Inr)
  define A where "A = spawn_coprocs (coproc_nodes c) @ map BuildElementGraph (comp_thread_ctxs c)"
  define R where "R = per_node_outer (existing_nodes c) (comp_thread_ctxs c) [] @ offl
          @ map InitGraphPerThread (comp_thread_ctxs c) @ starts
          @ map PrepareIOContext [0..<io_thread_count c] @ [NotifyReady, RemoteLaunch]"
  have tr': "tr = A @ [InitGraphGlobal ctx0] @ R"
    by (simp add: tr A_def R_def)
  have idle: "\<forall>ev \<in> set A. phase ev < 2"
    using spawn_coprocs_phase [of "coproc_nodes c"] by (auto simp: A_def)
  obtain w1 where g: "initialize_global e world0 = Inr w1" and a1: "hmac_sa_entry_array w1 \<noteq> None"
    using initialize_global_ok [OF nt, of world0] by (simp add: world0_def)
  have "sorted (map phase tr)" using b by (rule bootstrap_sorted)
  then have sR: "sorted (map phase R)"
    by (simp add: tr' sorted_append)
  have ng: "list_all (\<lambda>x. \<not> is_global_init x) R"
  proof -
    have "is_global_init x \<Longrightarrow> phase x = 2" for x by (cases x) auto
    moreover have "\<forall>x \<in> set R. phase x \<noteq> 2"
      using per_node_outer_phase [of "existing_nodes c" "comp_thread_ctxs c" "[]"] p4 p6
      by (auto simp: R_def)
    ultimately show ?thesis by (auto simp: list_all_iff)
  qed
  from run_inits_allocated [OF a1 ng, of e] sorted_phase_per_node_first [OF sR]
  obtain w' where "run_inits e R w1 = Inr w'" by blast
  then show "\<exists>w'. run_inits e tr world0 = Inr w'"
    by (simp add: tr' run_inits_append run_inits_idle [OF idle] g)
qed

text \<open>
  After the global, the per-node and the per-thread initialisation, the field \<open>flows\<close>
  of a thread points to \<open>num_tunnels\<close> entries (1024 as configured), each with a key of
  64 bytes: the key array that \<open>process\<close> indexes.
\<close>

lemma flows_after_init:
  assumes "0 < num_tunnels e" and "num_tunnels e < 2 ^ 24"
    and "initialize_global e world0 = Inr w1"
    and "initialize_per_node e (node_id ctx) w1 = Inr w2"
  shows "flows_of (initialize ctx w2) (core_id ctx)
           = Some (KeyArray (map tunnel_entry [0..<num_tunnels e]))"
proof -
  from initialize_global_ok [OF assms(1,2), of world0] assms(3)
  have a: "hmac_sa_entry_array w1 = Some (map tunnel_entry [0..<num_tunnels e])"
    by (auto simp: world0_def)
  with assms(4) have "node_local_storage w2 (node_id ctx) ''h_hmac_flows''
      = Some (KeyArray (map tunnel_entry [0..<num_tunnels e]))"
    by (auto simp: initialize_per_node_def Let_def alloc_def)
  then show ?thesis
    by (simp add: initialize_def Let_def get_alloc_def)
qed

lemma configured_flows:
  "length (map tunnel_entry [0..<num_tunnels (configure IPsecAuthHMACSHA1_new)]) = 1024"
  "\<forall>x \<in> set (map tunnel_entry [0..<n]). length (hmac_key x) = HMAC_KEY_SIZE"
  by (simp_all add: configure_def tunnel_key_length)

text \<open>
  C9.  The per-thread \<open>initialize\<close> leaves \<open>hmac_sa_entry_array\<close> null, calls \<open>free\<close>
  once if it was not null and not at all if it was, so that a second call frees nothing;
  \<open>initialize_per_node\<close> gets past its \<open>assert\<close> exactly when the array is not null.
  Hence, from a state in which the array is allocated, a sequence of initialisations
  runs without a failed assertion exactly when no per-node initialisation comes after a
  per-thread one; and the sequence of the bootstrap is such a sequence: run from the
  initial state with \<open>num_tunnels\<close> as configured, no assertion fails.
\<close>

theorem per_node_assert_valid_iff_before_per_thread:
  "(hmac_sa_entry_array (initialize ctx w) = None
      \<and> free_calls (initialize ctx w)
          = free_calls w + (if hmac_sa_entry_array w = None then 0 else 1)
      \<and> free_calls (initialize ctx' (initialize ctx w)) = free_calls (initialize ctx w))
   \<and> ((\<exists>w'. initialize_per_node e n w = Inr w') \<longleftrightarrow> hmac_sa_entry_array w \<noteq> None)
   \<and> (hmac_sa_entry_array w \<noteq> None \<and> list_all (\<lambda>x. \<not> is_global_init x) evs \<longrightarrow>
        ((\<exists>w'. run_inits e evs w = Inr w') \<longleftrightarrow> per_node_inits_first evs))
   \<and> (bootstrap c = Inr tr \<and> 0 < num_tunnels e \<and> num_tunnels e < 2 ^ 24 \<longrightarrow>
        per_node_inits_first tr \<and> (\<exists>w'. run_inits e tr world0 = Inr w'))"
  using initialize_array [of ctx w] initialize_frees [of ctx w] initialize_twice [of ctx' ctx w]
    initialize_per_node_asserts [of e n w] run_inits_allocated [of w evs e]
    bootstrap_inits_succeed [of c tr e]
  by blast

theorem per_node_assert_valid_iff_before_per_thread_witness:
  "per_node_inits_first
     [SpawnCoproc 0, ThreadInitDoneWait 0,
      BuildElementGraph \<lparr>core_id = 1, node_id = 0\<rparr>, BuildElementGraph \<lparr>core_id = 2, node_id = 0\<rparr>,
      InitGraphGlobal \<lparr>core_id = 1, node_id = 0\<rparr>,
      InitGraphPerNode \<lparr>core_id = 1, node_id = 0\<rparr>,
      OffloadInitProceed 0 \<lparr>core_id = 1, node_id = 0\<rparr>, OffloadInitDoneWait 0,
      InitGraphPerThread \<lparr>core_id = 1, node_id = 0\<rparr>,
      InitGraphPerThread \<lparr>core_id = 2, node_id = 0\<rparr>,
      LoopStartProceed 0, PrepareIOContext 0, NotifyReady, RemoteLaunch]
   \<and> (\<exists>w'. run_inits (configure IPsecAuthHMACSHA1_new)
     [SpawnCoproc 0, ThreadInitDoneWait 0,
      BuildElementGraph \<lparr>core_id = 1, node_id = 0\<rparr>, BuildElementGraph \<lparr>core_id = 2, node_id = 0\<rparr>,
      InitGraphGlobal \<lparr>core_id = 1, node_id = 0\<rparr>,
      InitGraphPerNode \<lparr>core_id = 1, node_id = 0\<rparr>,
      OffloadInitProceed 0 \<lparr>core_id = 1, node_id = 0\<rparr>, OffloadInitDoneWait 0,
      InitGraphPerThread \<lparr>core_id = 1, node_id = 0\<rparr>,
      InitGraphPerThread \<lparr>core_id = 2, node_id = 0\<rparr>,
      LoopStartProceed 0, PrepareIOContext 0, NotifyReady, RemoteLaunch] world0 = Inr w')
   \<and> (\<exists>w'. run_inits (configure IPsecAuthHMACSHA1_new)
          [InitGraphPerNode \<lparr>core_id = 1, node_id = 0\<rparr>,
           InitGraphPerThread \<lparr>core_id = 1, node_id = 0\<rparr>,
           InitGraphPerThread \<lparr>core_id = 2, node_id = 0\<rparr>]
          (world0\<lparr>hmac_sa_entry_array := Some []\<rparr>) = Inr w')
   \<and> \<not> (\<exists>w'. run_inits (configure IPsecAuthHMACSHA1_new)
          [InitGraphPerThread \<lparr>core_id = 1, node_id = 0\<rparr>,
           InitGraphPerNode \<lparr>core_id = 1, node_id = 1\<rparr>]
          (world0\<lparr>hmac_sa_entry_array := Some []\<rparr>) = Inr w')"
proof -
  let ?c1 = "\<lparr>core_id = 1, node_id = 0\<rparr>" and ?c2 = "\<lparr>core_id = 2, node_id = 0\<rparr>"
  let ?e = "configure IPsecAuthHMACSHA1_new"
  let ?c = "\<lparr>coproc_nodes = [0], comp_thread_ctxs = [?c1, ?c2],
        existing_nodes = [0], io_thread_count = 1\<rparr>"
  let ?tr = "[SpawnCoproc 0, ThreadInitDoneWait 0,
      BuildElementGraph ?c1, BuildElementGraph ?c2, InitGraphGlobal ?c1, InitGraphPerNode ?c1,
      OffloadInitProceed 0 ?c1, OffloadInitDoneWait 0, InitGraphPerThread ?c1,
      InitGraphPerThread ?c2, LoopStartProceed 0, PrepareIOContext 0, NotifyReady, RemoteLaunch]"
  let ?w = "world0\<lparr>hmac_sa_entry_array := Some []\<rparr>"
  let ?good = "[InitGraphPerNode ?c1, InitGraphPerThread ?c1, InitGraphPerThread ?c2]"
  let ?bad = "[InitGraphPerThread ?c1, InitGraphPerNode \<lparr>core_id = 1, node_id = 1\<rparr>]"
  have b: "bootstrap ?c = Inr ?tr"
    by (simp add: bootstrap_def)
  have n: "0 < num_tunnels ?e" "num_tunnels ?e < 2 ^ 24"
    by (simp_all add: configure_def)
  have w: "hmac_sa_entry_array ?w \<noteq> None"
    by simp
  have g: "list_all (\<lambda>x. \<not> is_global_init x) ?good" "per_node_inits_first ?good"
    by simp_all
  have h: "list_all (\<lambda>x. \<not> is_global_init x) ?bad" "\<not> per_node_inits_first ?bad"
    by simp_all
  from per_node_assert_valid_iff_before_per_thread [of ?c1 ?w ?c2 ?e 0 ?good ?c ?tr] b n w g
  have 1: "per_node_inits_first ?tr" "\<exists>w'. run_inits ?e ?tr world0 = Inr w'"
    "\<exists>w'. run_inits ?e ?good ?w = Inr w'"
    by blast+
  from per_node_assert_valid_iff_before_per_thread [of ?c1 ?w ?c2 ?e 0 ?bad ?c ?tr] w h
  have 2: "\<not> (\<exists>w'. run_inits ?e ?bad ?w = Inr w')"
    by blast
  from 1 2 show ?thesis
    by blast
qed

end
